theory Spec2Isabelle
  imports Main
begin

section \<open>The sudoku table\<close>

text \<open>
  The solver works on \<^verbatim>\<open>int table[9][9]\<close>, mutated in place. A table is modelled
  as a total map from a row index and a column index to the cell's value; the code only
  ever reads and writes indices below 9. A blank cell holds 0. Every function that
  mutates the table returns the new table.
\<close>

type_synonym table = "nat \<Rightarrow> nat \<Rightarrow> int"

definition store :: "table \<Rightarrow> nat \<Rightarrow> nat \<Rightarrow> int \<Rightarrow> table" where
  \<comment> \<open>\<^verbatim>\<open>table[row][col] = v\<close>\<close>
  "store t row col v = t(row := (t row)(col := v))"

definition number_of_empty_cells :: "table \<Rightarrow> nat" where
  "number_of_empty_cells t =
     fold (\<lambda>i. fold (\<lambda>j zeros. if t i j = 0 then zeros + 1 else zeros) [0..<9]) [0..<9] 0"

section \<open>Constraint checks\<close>

definition allowed_in_row :: "table \<Rightarrow> nat \<Rightarrow> int \<Rightarrow> bool" where
  "allowed_in_row t row num = (\<not> list_ex (\<lambda>j. t row j = num) [0..<9])"

definition allowed_in_col :: "table \<Rightarrow> nat \<Rightarrow> int \<Rightarrow> bool" where
  "allowed_in_col t col num = (\<not> list_ex (\<lambda>i. t i col = num) [0..<9])"

definition allowed_in_block :: "table \<Rightarrow> nat \<Rightarrow> nat \<Rightarrow> int \<Rightarrow> bool" where
  "allowed_in_block t row col num =
     (let block_row_start = row - row mod 3;
          block_col_start = col - col mod 3
      in \<not> list_ex (\<lambda>i. list_ex (\<lambda>j. i \<noteq> row \<and> j \<noteq> col \<and> t i j = num)
                              [block_col_start..<block_col_start + 3])
                    [block_row_start..<block_row_start + 3])"

definition allowed_at_position :: "table \<Rightarrow> nat \<Rightarrow> nat \<Rightarrow> int \<Rightarrow> bool" where
  "allowed_at_position t row col num =
     (allowed_in_row t row num \<and> allowed_in_col t col num \<and> allowed_in_block t row col num)"

section \<open>Filling cells\<close>

text \<open>
  The counting loops keep the last position (or digit) that passed the test together
  with the count. The C variable holding the position is uninitialised before the first
  hit; the model starts it at 0, and it is only read when the count is at least 1.
\<close>

definition allowed_scan :: "table \<Rightarrow> nat \<Rightarrow> nat \<Rightarrow> int \<times> nat" where
  "allowed_scan t row col =
     fold (\<lambda>num (allowed, count_allowed).
             if allowed_at_position t row col num then (num, count_allowed + 1)
             else (allowed, count_allowed))
          [1..9] (0, 0)"

definition select_allowed :: "table \<Rightarrow> nat \<Rightarrow> nat \<Rightarrow> bool \<Rightarrow> table" where
  "select_allowed t row col assign_random =
     (case allowed_scan t row col of (allowed, count_allowed) \<Rightarrow>
        if count_allowed = 1 \<or> (count_allowed \<ge> 1 \<and> assign_random)
        then store t row col allowed else t)"

definition select_possible_in_row :: "table \<Rightarrow> nat \<Rightarrow> int \<Rightarrow> table" where
  "select_possible_in_row t row num =
     (if \<not> allowed_in_row t row num then t
      else case fold (\<lambda>j (possible_col, count_possible).
                        if t row j = 0 \<and> allowed_in_col t j num \<and> allowed_in_block t row j num
                        then (j, count_possible + 1) else (possible_col, count_possible))
                     [0..<9] (0, 0::nat)
           of (possible_col, count_possible) \<Rightarrow>
             if count_possible = 1 then store t row possible_col num else t)"

definition select_possible_in_col :: "table \<Rightarrow> nat \<Rightarrow> int \<Rightarrow> table" where
  "select_possible_in_col t col num =
     (if \<not> allowed_in_col t col num then t
      else case fold (\<lambda>i (possible_row, count_possible).
                        if t i col = 0 \<and> allowed_in_row t i num \<and> allowed_in_block t i col num
                        then (i, count_possible + 1) else (possible_row, count_possible))
                     [0..<9] (0, 0::nat)
           of (possible_row, count_possible) \<Rightarrow>
             if count_possible = 1 then store t possible_row col num else t)"

definition select_possible_in_block :: "table \<Rightarrow> nat \<Rightarrow> nat \<Rightarrow> int \<Rightarrow> table" where
  "select_possible_in_block t row col num =
     (if \<not> allowed_in_block t row col num then t
      else case fold (\<lambda>i. fold (\<lambda>j (possible, count_possible).
                        if t i j = 0 \<and> allowed_at_position t i j num
                        then ((i, j), count_possible + 1) else (possible, count_possible))
                      [col..<col + 3])
                     [row..<row + 3] ((0, 0), 0::nat)
           of ((possible_row, possible_col), count_possible) \<Rightarrow>
             if count_possible = 1 then store t possible_row possible_col num else t)"

definition select_possible :: "table \<Rightarrow> int \<Rightarrow> table" where
  "select_possible t num =
     (let t1 = fold (\<lambda>i t. select_possible_in_row t i num) [0..<9] t;
          t2 = fold (\<lambda>j t. select_possible_in_col t j num) [0..<9] t1
      in fold (\<lambda>i. fold (\<lambda>j t. select_possible_in_block t i j num) [0, 3, 6]) [0, 3, 6] t2)"

definition sweep_cell :: "nat \<Rightarrow> nat \<Rightarrow> table \<times> bool \<Rightarrow> table \<times> bool" where
  \<comment> \<open>the body of the first loop nest of \<^verbatim>\<open>single_pass\<close>\<close>
  "sweep_cell i j = (\<lambda>(t, assign_random).
     if t i j = 0 then (select_allowed t i j assign_random, False) else (t, assign_random))"

definition single_pass :: "table \<Rightarrow> bool \<Rightarrow> table" where
  "single_pass t assign_random =
     (let t1 = fst (fold (\<lambda>i. fold (\<lambda>j. sweep_cell i j) [0..<9]) [0..<9] (t, assign_random))
      in fold (\<lambda>num t. select_possible t num) [1..9] t1)"

section \<open>The validator\<close>

text \<open>
  \<^verbatim>\<open>valid\<close> first rejects a table with a cell outside 1 to 9. Then, for every row,
  column and block, it counts in \<^verbatim>\<open>int frequency[9] = {0}\<close> how often each digit occurs
  (\<^verbatim>\<open>++frequency[table[i][j] - 1]\<close>) and compares the array with
  \<^verbatim>\<open>expected_frequency\<close> by \<^verbatim>\<open>memcmp\<close>. The counts are never negative and are
  modelled as natural numbers. The index \<^verbatim>\<open>table[i][j] - 1\<close> is between 0 and 8 whenever
  the counting loops are reached.
\<close>

definition expected_frequency :: "nat list" where
  "expected_frequency = [1, 1, 1, 1, 1, 1, 1, 1, 1]"

definition count_frequency :: "int list \<Rightarrow> nat list" where
  "count_frequency vs =
     fold (\<lambda>v frequency. frequency[nat (v - 1) := frequency ! nat (v - 1) + 1]) vs
       (replicate 9 0)"

definition valid :: "table \<Rightarrow> bool" where
  "valid t =
     (if list_ex (\<lambda>i. list_ex (\<lambda>j. t i j < 1 \<or> t i j > 9) [0..<9]) [0..<9] then False
      else if list_ex (\<lambda>i. count_frequency (map (\<lambda>j. t i j) [0..<9]) \<noteq> expected_frequency)
                [0..<9] then False
      else if list_ex (\<lambda>j. count_frequency (map (\<lambda>i. t i j) [0..<9]) \<noteq> expected_frequency)
                [0..<9] then False
      else if list_ex (\<lambda>i. list_ex (\<lambda>j.
                  count_frequency (concat (map (\<lambda>k. map (\<lambda>l. t k l) [j..<j + 3]) [i..<i + 3]))
                    \<noteq> expected_frequency) [0, 3, 6]) [0, 3, 6] then False
      else True)"

text \<open>
  What the specification asks of a solved grid, in its own words: every cell holds a digit
  1 to 9, and each row, each column and each block contains each digit exactly once.
\<close>

definition is_solution :: "table \<Rightarrow> bool" where
  "is_solution t =
     ((\<forall>i<9. \<forall>j<9. 1 \<le> t i j \<and> t i j \<le> 9)
      \<and> (\<forall>i<9. \<forall>d\<in>{1..9}. card {j. j < 9 \<and> t i j = d} = 1)
      \<and> (\<forall>j<9. \<forall>d\<in>{1..9}. card {i. i < 9 \<and> t i j = d} = 1)
      \<and> (\<forall>bi<3. \<forall>bj<3. \<forall>d\<in>{1..9}. card {(i, j). i div 3 = bi \<and> j div 3 = bj \<and> t i j = d} = 1))"

section \<open>Auxiliary notions for the proofs\<close>

text \<open>
  \<open>cells\<close> lists the 81 positions in row-major order, the order of every doubly nested
  loop over the table. \<open>fills t t'\<close> says that \<open>t'\<close> arises from \<open>t\<close> by writing digits
  1 to 9 into cells that were blank, and nothing else. \<open>candidates\<close> are the digits the
  loop of \<^verbatim>\<open>select_allowed\<close> counts, in increasing order. \<open>sweep\<close> is the first loop
  nest of \<^verbatim>\<open>single_pass\<close> over a list of positions.
\<close>

definition cells :: "(nat \<times> nat) list" where
  "cells = List.product [0..<9] [0..<9]"

definition fills :: "table \<Rightarrow> table \<Rightarrow> bool" where
  "fills t t' = (\<forall>i j. t' i j = t i j \<or> (i < 9 \<and> j < 9 \<and> t i j = 0 \<and> 1 \<le> t' i j \<and> t' i j \<le> 9))"

definition candidates :: "table \<Rightarrow> nat \<Rightarrow> nat \<Rightarrow> int list" where
  "candidates t row col = filter (allowed_at_position t row col) [1..9]"

definition sweep :: "(nat \<times> nat) list \<Rightarrow> table \<times> bool \<Rightarrow> table \<times> bool" where
  "sweep cs = fold (\<lambda>(i, j). sweep_cell i j) cs"

text \<open>
  The positions counted by the three loops of \<^verbatim>\<open>select_possible_in_row\<close>,
  \<^verbatim>\<open>select_possible_in_col\<close> and \<^verbatim>\<open>select_possible_in_block\<close>, and two checks that
  can be evaluated on a given table: no blank cell has exactly one allowed digit, and no
  digit has exactly one place in a row, column or block that lacks it.
\<close>

definition row_hits :: "table \<Rightarrow> nat \<Rightarrow> int \<Rightarrow> nat list" where
  "row_hits t row num =
     filter (\<lambda>j. t row j = 0 \<and> allowed_in_col t j num \<and> allowed_in_block t row j num) [0..<9]"

definition col_hits :: "table \<Rightarrow> nat \<Rightarrow> int \<Rightarrow> nat list" where
  "col_hits t col num =
     filter (\<lambda>i. t i col = 0 \<and> allowed_in_row t i num \<and> allowed_in_block t i col num) [0..<9]"

definition block_hits :: "table \<Rightarrow> nat \<Rightarrow> nat \<Rightarrow> int \<Rightarrow> (nat \<times> nat) list" where
  "block_hits t row col num =
     filter (\<lambda>(i, j). t i j = 0 \<and> allowed_at_position t i j num)
       (List.product [row..<row + 3] [col..<col + 3])"

definition naked_single_free :: "table \<Rightarrow> bool" where
  "naked_single_free t =
     list_all (\<lambda>(i, j). t i j \<noteq> 0 \<or> length (candidates t i j) \<noteq> 1) cells"

definition hidden_single_free :: "table \<Rightarrow> bool" where
  "hidden_single_free t =
     list_all (\<lambda>num.
        list_all (\<lambda>i. \<not> (allowed_in_row t i num \<and> length (row_hits t i num) = 1)) [0..<9]
        \<and> list_all (\<lambda>j. \<not> (allowed_in_col t j num \<and> length (col_hits t j num) = 1)) [0..<9]
        \<and> list_all (\<lambda>(i, j). \<not> (allowed_in_block t i j num \<and> length (block_hits t i j num) = 1))
             (List.product [0, 3, 6] [0, 3, 6]))
       [1..9]"

text \<open>
  The candidate set of the specification: a digit 1 to 9 is a legal candidate at a cell
  when it is not yet present in the cell's row, column or block.
\<close>

definition legal :: "table \<Rightarrow> nat \<Rightarrow> nat \<Rightarrow> int \<Rightarrow> bool" where
  "legal t row col d =
     (1 \<le> d \<and> d \<le> 9 \<and> (\<forall>j<9. t row j \<noteq> d) \<and> (\<forall>i<9. t i col \<noteq> d)
      \<and> (\<forall>i j. i div 3 = row div 3 \<and> j div 3 = col div 3 \<longrightarrow> t i j \<noteq> d))"

text \<open>
  The guess as the specification words it: the cell is filled through a selection
  capability \<open>pick\<close> that is handed the allowed digits and returns one of them.
\<close>

definition spec_select_allowed :: "(int list \<Rightarrow> int) \<Rightarrow> table \<Rightarrow> nat \<Rightarrow> nat \<Rightarrow> bool \<Rightarrow> table" where
  "spec_select_allowed pick t row col guess =
     (let allowed = candidates t row col
      in if length allowed = 1 then store t row col (hd allowed)
         else if length allowed > 1 \<and> guess then store t row col (pick allowed)
         else t)"

text \<open>Two tables are the same grid when they agree on the 81 cells.\<close>

definition same_grid :: "table \<Rightarrow> table \<Rightarrow> bool" where
  "same_grid t t' = (\<forall>i<9. \<forall>j<9. t i j = t' i j)"

section \<open>Runs of the program\<close>

text \<open>
  The C locals \<^verbatim>\<open>allowed\<close>, \<^verbatim>\<open>possible_col\<close> and \<^verbatim>\<open>possible_row\<close> are declared
  without an initial value, so what they hold before their loop assigns them is
  indeterminate and may differ from run to run. The functions \<open>*_from\<close> are the four
  writing functions with that initial content as a parameter (the positions are C
  integers here). A relation \<open>*_run\<close> relates a table to every result some initial content
  allows. \<open>for_loop\<close> runs a body relation over a list, \<open>single_pass_run\<close> and
  \<open>solve_run\<close> are \<^verbatim>\<open>single_pass\<close> and the loop of \<^verbatim>\<open>solve\<close> over these relations:
  \<open>solve_run t 81 False t'\<close> says that some run of \<^verbatim>\<open>solve\<close> on \<open>t\<close> ends with
  \<open>t'\<close>. The program has no other source of indeterminacy: it calls no random number
  generator and its clock readings are only printed.
\<close>

definition select_allowed_from :: "int \<Rightarrow> table \<Rightarrow> nat \<Rightarrow> nat \<Rightarrow> bool \<Rightarrow> table" where
  "select_allowed_from allowed0 t row col assign_random =
     (case fold (\<lambda>num (allowed, count_allowed).
                   if allowed_at_position t row col num then (num, count_allowed + 1)
                   else (allowed, count_allowed))
                [1..9] (allowed0, 0::nat)
      of (allowed, count_allowed) \<Rightarrow>
        if count_allowed = 1 \<or> (count_allowed \<ge> 1 \<and> assign_random)
        then store t row col allowed else t)"

definition select_possible_in_row_from :: "int \<Rightarrow> table \<Rightarrow> nat \<Rightarrow> int \<Rightarrow> table" where
  "select_possible_in_row_from possible_col0 t row num =
     (if \<not> allowed_in_row t row num then t
      else case fold (\<lambda>j (possible_col, count_possible).
                        if t row j = 0 \<and> allowed_in_col t j num \<and> allowed_in_block t row j num
                        then (int j, count_possible + 1) else (possible_col, count_possible))
                     [0..<9] (possible_col0, 0::nat)
           of (possible_col, count_possible) \<Rightarrow>
             if count_possible = 1 then store t row (nat possible_col) num else t)"

definition select_possible_in_col_from :: "int \<Rightarrow> table \<Rightarrow> nat \<Rightarrow> int \<Rightarrow> table" where
  "select_possible_in_col_from possible_row0 t col num =
     (if \<not> allowed_in_col t col num then t
      else case fold (\<lambda>i (possible_row, count_possible).
                        if t i col = 0 \<and> allowed_in_row t i num \<and> allowed_in_block t i col num
                        then (int i, count_possible + 1) else (possible_row, count_possible))
                     [0..<9] (possible_row0, 0::nat)
           of (possible_row, count_possible) \<Rightarrow>
             if count_possible = 1 then store t (nat possible_row) col num else t)"

definition select_possible_in_block_from :: "int \<times> int \<Rightarrow> table \<Rightarrow> nat \<Rightarrow> nat \<Rightarrow> int \<Rightarrow> table" where
  "select_possible_in_block_from possible0 t row col num =
     (if \<not> allowed_in_block t row col num then t
      else case fold (\<lambda>i. fold (\<lambda>j (possible, count_possible).
                        if t i j = 0 \<and> allowed_at_position t i j num
                        then ((int i, int j), count_possible + 1) else (possible, count_possible))
                      [col..<col + 3])
                     [row..<row + 3] (possible0, 0::nat)
           of ((possible_row, possible_col), count_possible) \<Rightarrow>
             if count_possible = 1 then store t (nat possible_row) (nat possible_col) num else t)"

inductive for_loop :: "('x \<Rightarrow> 's \<Rightarrow> 's \<Rightarrow> bool) \<Rightarrow> 'x list \<Rightarrow> 's \<Rightarrow> 's \<Rightarrow> bool"
  for body :: "'x \<Rightarrow> 's \<Rightarrow> 's \<Rightarrow> bool" where
  for_loop_done: "for_loop body [] s s"
| for_loop_step: "body x s s1 \<Longrightarrow> for_loop body xs s1 s' \<Longrightarrow> for_loop body (x # xs) s s'"

inductive_cases for_loop_NilE: "for_loop body [] s s'"
inductive_cases for_loop_ConsE: "for_loop body (x # xs) s s'"

definition select_allowed_run :: "table \<Rightarrow> nat \<Rightarrow> nat \<Rightarrow> bool \<Rightarrow> table \<Rightarrow> bool" where
  "select_allowed_run t row col assign_random t' =
     (\<exists>allowed0. t' = select_allowed_from allowed0 t row col assign_random)"

definition select_possible_in_row_run :: "table \<Rightarrow> nat \<Rightarrow> int \<Rightarrow> table \<Rightarrow> bool" where
  "select_possible_in_row_run t row num t' =
     (\<exists>possible_col0. t' = select_possible_in_row_from possible_col0 t row num)"

definition select_possible_in_col_run :: "table \<Rightarrow> nat \<Rightarrow> int \<Rightarrow> table \<Rightarrow> bool" where
  "select_possible_in_col_run t col num t' =
     (\<exists>possible_row0. t' = select_possible_in_col_from possible_row0 t col num)"

definition select_possible_in_block_run :: "table \<Rightarrow> nat \<Rightarrow> nat \<Rightarrow> int \<Rightarrow> table \<Rightarrow> bool" where
  "select_possible_in_block_run t row col num t' =
     (\<exists>possible0. t' = select_possible_in_block_from possible0 t row col num)"

definition select_possible_run :: "int \<Rightarrow> table \<Rightarrow> table \<Rightarrow> bool" where
  "select_possible_run num t t' =
     (\<exists>t1 t2. for_loop (\<lambda>i t t'. select_possible_in_row_run t i num t') [0..<9] t t1
        \<and> for_loop (\<lambda>j t t'. select_possible_in_col_run t j num t') [0..<9] t1 t2
        \<and> for_loop (\<lambda>i. for_loop (\<lambda>j t t'. select_possible_in_block_run t i j num t') [0, 3, 6])
             [0, 3, 6] t2 t')"

definition sweep_cell_run :: "nat \<Rightarrow> nat \<Rightarrow> table \<times> bool \<Rightarrow> table \<times> bool \<Rightarrow> bool" where
  "sweep_cell_run i j s s' =
     (case s of (t, assign_random) \<Rightarrow>
        if t i j = 0 then \<exists>t'. select_allowed_run t i j assign_random t' \<and> s' = (t', False)
        else s' = s)"

definition single_pass_run :: "table \<Rightarrow> bool \<Rightarrow> table \<Rightarrow> bool" where
  "single_pass_run t assign_random t' =
     (\<exists>s1. for_loop (\<lambda>i. for_loop (\<lambda>j. sweep_cell_run i j) [0..<9]) [0..<9] (t, assign_random) s1
        \<and> for_loop select_possible_run [1..9] (fst s1) t')"

inductive solve_run :: "table \<Rightarrow> nat \<Rightarrow> bool \<Rightarrow> table \<Rightarrow> bool" where
  solve_run_done: "number_of_empty_cells t = 0 \<Longrightarrow> solve_run t prev_zeros assign_random t"
| solve_run_give_up:
    "number_of_empty_cells t \<noteq> 0 \<Longrightarrow> number_of_empty_cells t = prev_zeros \<Longrightarrow> assign_random
     \<Longrightarrow> solve_run t prev_zeros assign_random t"
| solve_run_pass:
    "number_of_empty_cells t \<noteq> 0 \<Longrightarrow> \<not> (number_of_empty_cells t = prev_zeros \<and> assign_random)
     \<Longrightarrow> single_pass_run t (assign_random \<or> number_of_empty_cells t = prev_zeros) t1
     \<Longrightarrow> solve_run t1 (number_of_empty_cells t) (assign_random \<or> number_of_empty_cells t = prev_zeros) t'
     \<Longrightarrow> solve_run t prev_zeros assign_random t'"

section \<open>Counting blanks, and writes that only fill blanks\<close>


lemma fold_product:
  "fold (\<lambda>i. fold (\<lambda>j. f (i, j)) ys) xs = fold f (List.product xs ys)"
  by (induction xs) (simp_all add: fold_map comp_def)

lemma fold_count:
  "fold (\<lambda>x c. if P x then c + 1 else c) xs (c0::nat) = c0 + length (filter P xs)"
  by (induction xs arbitrary: c0) simp_all

lemma fold_last_count:
  "fold (\<lambda>x (a, c). if P x then (x, c + 1) else (a, c)) xs (a0, c0::nat) =
     (if filter P xs = [] then a0 else last (filter P xs), c0 + length (filter P xs))"
  by (induction xs arbitrary: a0 c0) simp_all


lemma number_of_empty_cells_filter:
  "number_of_empty_cells t = length (filter (\<lambda>(i, j). t i j = 0) cells)"
proof -
  have "number_of_empty_cells t =
      fold (\<lambda>p c. if (case p of (i, j) \<Rightarrow> t i j = 0) then c + 1 else c) cells 0"
    unfolding number_of_empty_cells_def cells_def
    by (subst fold_product [symmetric]) simp
  then show ?thesis by (simp add: fold_count)
qed

lemma number_of_empty_cells_card:
  "number_of_empty_cells t = card {(i, j). i < 9 \<and> j < 9 \<and> t i j = 0}"
proof -
  have d: "distinct (filter (\<lambda>(i, j). t i j = 0) cells)"
    by (simp add: cells_def distinct_product)
  have s: "set (filter (\<lambda>(i, j). t i j = 0) cells) = {(i, j). i < 9 \<and> j < 9 \<and> t i j = 0}"
    by (auto simp: cells_def)
  show ?thesis
    using distinct_card [OF d] unfolding s by (simp add: number_of_empty_cells_filter)
qed

lemma number_of_empty_cells_le: "number_of_empty_cells t \<le> 81"
proof -
  have "length (filter (\<lambda>(i, j). t i j = 0) cells) \<le> length cells"
    by (rule length_filter_le)
  then show ?thesis by (simp add: number_of_empty_cells_filter cells_def)
qed


lemma fills_refl: "fills t t"
  by (simp add: fills_def)

lemma fills_trans: "fills t t' \<Longrightarrow> fills t' t'' \<Longrightarrow> fills t t''"
  unfolding fills_def
proof (intro allI)
  fix i j
  assume a: "\<forall>i j. t' i j = t i j \<or> (i < 9 \<and> j < 9 \<and> t i j = 0 \<and> 1 \<le> t' i j \<and> t' i j \<le> 9)"
    and b: "\<forall>i j. t'' i j = t' i j \<or> (i < 9 \<and> j < 9 \<and> t' i j = 0 \<and> 1 \<le> t'' i j \<and> t'' i j \<le> 9)"
  from a have a': "t' i j = t i j \<or> (i < 9 \<and> j < 9 \<and> t i j = 0 \<and> 1 \<le> t' i j \<and> t' i j \<le> 9)" by blast
  from b have b': "t'' i j = t' i j \<or> (i < 9 \<and> j < 9 \<and> t' i j = 0 \<and> 1 \<le> t'' i j \<and> t'' i j \<le> 9)" by blast
  from a' b' show "t'' i j = t i j \<or> (i < 9 \<and> j < 9 \<and> t i j = 0 \<and> 1 \<le> t'' i j \<and> t'' i j \<le> 9)"
    by auto
qed

lemma fills_store:
  "row < 9 \<Longrightarrow> col < 9 \<Longrightarrow> t row col = 0 \<Longrightarrow> 1 \<le> v \<Longrightarrow> v \<le> 9 \<Longrightarrow> fills t (store t row col v)"
  by (simp add: fills_def store_def)

lemma fills_antisym: "fills t t' \<Longrightarrow> fills t' t \<Longrightarrow> t' = t"
proof (intro ext)
  fix i j
  assume "fills t t'" "fills t' t"
  then have "t' i j = t i j \<or> (t i j = 0 \<and> 1 \<le> t' i j)" "t i j = t' i j \<or> t' i j = 0"
    unfolding fills_def by blast+
  then show "t' i j = t i j" by auto
qed

lemma fills_zeros_le:
  assumes "fills t t'"
  shows "number_of_empty_cells t' \<le> number_of_empty_cells t"
proof -
  have "{(i, j). i < 9 \<and> j < 9 \<and> t' i j = 0} \<subseteq> {(i, j). i < 9 \<and> j < 9 \<and> t i j = 0}"
    using assms unfolding fills_def by force
  moreover have "finite {(i, j). i < 9 \<and> j < 9 \<and> t i j = 0}"
    by (rule finite_subset [of _ "{..<9} \<times> {..<9}"]) auto
  ultimately show ?thesis
    unfolding number_of_empty_cells_card by (rule card_mono [rotated])
qed

lemma fills_zeros_less:
  assumes "fills t t'" and "t' \<noteq> t"
  shows "number_of_empty_cells t' < number_of_empty_cells t"
proof -
  from assms(2) obtain i j where ne: "t' i j \<noteq> t i j" by (meson ext)
  with assms(1) have c: "i < 9" "j < 9" "t i j = 0" "t' i j \<noteq> 0"
    unfolding fills_def by (metis, metis, metis, metis)
  have sub: "{(i, j). i < 9 \<and> j < 9 \<and> t' i j = 0} \<subseteq> {(i, j). i < 9 \<and> j < 9 \<and> t i j = 0}"
    using assms(1) unfolding fills_def by force
  have "(i, j) \<in> {(i, j). i < 9 \<and> j < 9 \<and> t i j = 0}" "(i, j) \<notin> {(i, j). i < 9 \<and> j < 9 \<and> t' i j = 0}"
    using c by auto
  with sub have "{(i, j). i < 9 \<and> j < 9 \<and> t' i j = 0} \<subset> {(i, j). i < 9 \<and> j < 9 \<and> t i j = 0}"
    by blast
  moreover have "finite {(i, j). i < 9 \<and> j < 9 \<and> t i j = 0}"
    by (rule finite_subset [of _ "{..<9} \<times> {..<9}"]) auto
  ultimately show ?thesis
    unfolding number_of_empty_cells_card by (rule psubset_card_mono [rotated])
qed

lemma fills_zeros_eq:
  "fills t t' \<Longrightarrow> number_of_empty_cells t' = number_of_empty_cells t \<Longrightarrow> t' = t"
  using fills_zeros_less by fastforce


lemma allowed_scan_eq:
  "allowed_scan t row col =
     (if candidates t row col = [] then 0 else last (candidates t row col),
      length (candidates t row col))"
  unfolding allowed_scan_def candidates_def by (simp add: fold_last_count)

lemma candidates_range: "d \<in> set (candidates t row col) \<Longrightarrow> 1 \<le> d \<and> d \<le> 9"
  by (simp add: candidates_def)

lemma select_allowed_eq:
  "select_allowed t row col assign_random =
     (if length (candidates t row col) = 1 \<or> (candidates t row col \<noteq> [] \<and> assign_random)
      then store t row col (last (candidates t row col)) else t)"
  by (auto simp: select_allowed_def allowed_scan_eq Suc_le_eq)

lemma select_allowed_fills:
  assumes "row < 9" "col < 9" "t row col = 0"
  shows "fills t (select_allowed t row col assign_random)"
proof (cases "candidates t row col = []")
  case True
  then show ?thesis by (simp add: select_allowed_eq fills_refl)
next
  case False
  then have "last (candidates t row col) \<in> set (candidates t row col)" by simp
  then have "1 \<le> last (candidates t row col) \<and> last (candidates t row col) \<le> 9"
    by (rule candidates_range)
  with assms show ?thesis
    by (simp add: select_allowed_eq fills_refl fills_store)
qed

lemma single_hit:
  assumes "length (filter P xs) = 1"
  shows "last (filter P xs) \<in> set xs \<and> P (last (filter P xs))"
proof -
  from assms have "filter P xs \<noteq> []" by auto
  then have "last (filter P xs) \<in> set (filter P xs)" by (rule last_in_set)
  then show ?thesis by auto
qed

lemma select_possible_in_row_eq:
  "select_possible_in_row t row num =
     (let hits = filter (\<lambda>j. t row j = 0 \<and> allowed_in_col t j num \<and> allowed_in_block t row j num) [0..<9]
      in if allowed_in_row t row num \<and> length hits = 1 then store t row (last hits) num else t)"
  by (simp add: select_possible_in_row_def fold_last_count Let_def)

lemma select_possible_in_col_eq:
  "select_possible_in_col t col num =
     (let hits = filter (\<lambda>i. t i col = 0 \<and> allowed_in_row t i num \<and> allowed_in_block t i col num) [0..<9]
      in if allowed_in_col t col num \<and> length hits = 1 then store t (last hits) col num else t)"
  by (simp add: select_possible_in_col_def fold_last_count Let_def)

lemma block_scan_eq:
  "fold (\<lambda>i. fold (\<lambda>j (possible, count_possible).
            if t i j = 0 \<and> allowed_at_position t i j num
            then ((i, j), count_possible + 1) else (possible, count_possible)) ys) xs (p0, c0::nat) =
   (let hits = filter (\<lambda>(i, j). t i j = 0 \<and> allowed_at_position t i j num) (List.product xs ys)
    in (if hits = [] then p0 else last hits, c0 + length hits))"
proof -
  let ?P = "\<lambda>(i, j). t i j = 0 \<and> allowed_at_position t i j num"
  have e: "fold (\<lambda>i. fold (\<lambda>j (possible, count_possible).
            if t i j = 0 \<and> allowed_at_position t i j num
            then ((i, j), count_possible + 1) else (possible, count_possible)) ys) xs =
        fold (\<lambda>p (a, c). if ?P p then (p, c + 1) else (a, c)) (List.product xs ys)"
    by (subst fold_product [symmetric]) simp
  show ?thesis unfolding e by (simp add: fold_last_count Let_def)
qed

lemma select_possible_in_block_eq:
  "select_possible_in_block t row col num =
     (let hits = filter (\<lambda>(i, j). t i j = 0 \<and> allowed_at_position t i j num)
                   (List.product [row..<row + 3] [col..<col + 3])
      in if allowed_in_block t row col num \<and> length hits = 1
         then store t (fst (last hits)) (snd (last hits)) num else t)"
  by (simp add: select_possible_in_block_def block_scan_eq Let_def split: prod.splits)

lemma select_possible_in_row_fills:
  assumes "row < 9" "1 \<le> num" "num \<le> 9"
  shows "fills t (select_possible_in_row t row num)"
proof -
  let ?P = "\<lambda>j. t row j = 0 \<and> allowed_in_col t j num \<and> allowed_in_block t row j num"
  show ?thesis
  proof (cases "allowed_in_row t row num \<and> length (filter ?P [0..<9]) = 1")
    case True
    then have "last (filter ?P [0..<9]) \<in> set [0..<9] \<and> ?P (last (filter ?P [0..<9]))"
      by (intro single_hit) simp
    with True assms show ?thesis
      by (simp add: select_possible_in_row_eq Let_def fills_store)
  next
    case False
    then show ?thesis
      by (auto simp: select_possible_in_row_eq Let_def fills_refl)
  qed
qed

lemma select_possible_in_col_fills:
  assumes "col < 9" "1 \<le> num" "num \<le> 9"
  shows "fills t (select_possible_in_col t col num)"
proof -
  let ?P = "\<lambda>i. t i col = 0 \<and> allowed_in_row t i num \<and> allowed_in_block t i col num"
  show ?thesis
  proof (cases "allowed_in_col t col num \<and> length (filter ?P [0..<9]) = 1")
    case True
    then have "last (filter ?P [0..<9]) \<in> set [0..<9] \<and> ?P (last (filter ?P [0..<9]))"
      by (intro single_hit) simp
    with True assms show ?thesis
      by (simp add: select_possible_in_col_eq Let_def fills_store)
  next
    case False
    then show ?thesis
      by (auto simp: select_possible_in_col_eq Let_def fills_refl)
  qed
qed

lemma select_possible_in_block_fills:
  assumes "row + 3 \<le> 9" "col + 3 \<le> 9" "1 \<le> num" "num \<le> 9"
  shows "fills t (select_possible_in_block t row col num)"
proof -
  let ?P = "\<lambda>(i, j). t i j = 0 \<and> allowed_at_position t i j num"
  let ?xs = "List.product [row..<row + 3] [col..<col + 3]"
  show ?thesis
  proof (cases "allowed_in_block t row col num \<and> length (filter ?P ?xs) = 1")
    case True
    then have h: "last (filter ?P ?xs) \<in> set ?xs \<and> ?P (last (filter ?P ?xs))"
      by (intro single_hit) simp
    obtain i j where ij: "last (filter ?P ?xs) = (i, j)" by (cases "last (filter ?P ?xs)")
    with h assms have "i < 9" "j < 9" "t i j = 0" by auto
    with True assms ij show ?thesis
      by (simp add: select_possible_in_block_eq Let_def fills_store)
  next
    case False
    then show ?thesis
      by (auto simp: select_possible_in_block_eq Let_def fills_refl)
  qed
qed

lemma fold_fills:
  "(\<And>x t. x \<in> set xs \<Longrightarrow> fills t (f x t)) \<Longrightarrow> fills t (fold f xs t)"
proof (induction xs arbitrary: t)
  case Nil
  then show ?case by (simp add: fills_refl)
next
  case (Cons x xs)
  have "fills t (f x t)" by (rule Cons.prems) simp
  moreover have "fills (f x t) (fold f xs (f x t))"
    by (rule Cons.IH) (simp add: Cons.prems)
  ultimately show ?case by (simp add: fills_trans)
qed

lemma select_possible_eq:
  "select_possible t num =
     fold (\<lambda>(i, j) t. select_possible_in_block t i j num) (List.product [0, 3, 6] [0, 3, 6])
       (fold (\<lambda>j t. select_possible_in_col t j num) [0..<9]
         (fold (\<lambda>i t. select_possible_in_row t i num) [0..<9] t))"
  unfolding select_possible_def Let_def
  by (subst fold_product [symmetric]) simp

lemma select_possible_fills:
  assumes "1 \<le> num" "num \<le> 9"
  shows "fills t (select_possible t num)"
proof -
  let ?t1 = "fold (\<lambda>i t. select_possible_in_row t i num) [0..<9] t"
  let ?t2 = "fold (\<lambda>j t. select_possible_in_col t j num) [0..<9] ?t1"
  have 1: "fills t ?t1"
    by (rule fold_fills) (simp add: select_possible_in_row_fills assms)
  have 2: "fills ?t1 ?t2"
    by (rule fold_fills) (simp add: select_possible_in_col_fills assms)
  have 3: "fills ?t2 (select_possible t num)"
    unfolding select_possible_eq
    by (rule fold_fills) (auto intro!: select_possible_in_block_fills assms)
  from 1 2 3 show ?thesis by (blast intro: fills_trans)
qed


lemma sweep_simps:
  "sweep [] s = s"
  "sweep ((i, j) # cs) s = sweep cs (sweep_cell i j s)"
  by (simp_all add: sweep_def)

lemma single_pass_eq:
  "single_pass t assign_random =
     fold (\<lambda>num t. select_possible t num) [1..9] (fst (sweep cells (t, assign_random)))"
  unfolding single_pass_def Let_def sweep_def cells_def
  by (subst fold_product [symmetric]) simp

lemma sweep_fills:
  "(\<And>i j. (i, j) \<in> set cs \<Longrightarrow> i < 9 \<and> j < 9) \<Longrightarrow> fills t (fst (sweep cs (t, b)))"
proof (induction cs arbitrary: t b)
  case Nil
  then show ?case by (simp add: sweep_simps fills_refl)
next
  case (Cons c cs)
  obtain i j where c: "c = (i, j)" by (cases c)
  have r: "i < 9 \<and> j < 9" using Cons.prems [of i j] c by simp
  obtain t' b' where s: "sweep_cell i j (t, b) = (t', b')" by (cases "sweep_cell i j (t, b)")
  have 1: "fills t t'"
    using s r by (auto simp: sweep_cell_def fills_refl select_allowed_fills split: if_splits)
  have 2: "fills t' (fst (sweep cs (t', b')))"
    by (rule Cons.IH) (rule Cons.prems, simp)
  from 1 2 show ?case by (simp add: c sweep_simps s fills_trans)
qed

lemma single_pass_fills: "fills t (single_pass t assign_random)"
proof -
  have 1: "fills t (fst (sweep cells (t, assign_random)))"
    by (rule sweep_fills) (auto simp: cells_def)
  have 2: "fills (fst (sweep cells (t, assign_random))) (single_pass t assign_random)"
    unfolding single_pass_eq by (rule fold_fills) (simp add: select_possible_fills)
  from 1 2 show ?thesis by (rule fills_trans)
qed

section \<open>The solver loop\<close>

text \<open>
  \<^verbatim>\<open>solve\<close> is a \<^verbatim>\<open>while(true)\<close> loop over the table, \<^verbatim>\<open>prev_zeros\<close> and
  \<^verbatim>\<open>assign_random\<close>, left by one of two \<^verbatim>\<open>break\<close>s. The model returns the final
  table together with a log holding, for every call of \<^verbatim>\<open>single_pass\<close> in order, the
  value of \<^verbatim>\<open>assign_random\<close> it was called with. The loop terminates because a pass
  never adds a blank, and two passes in a row without progress end it.
\<close>

function solve_loop :: "table \<Rightarrow> nat \<Rightarrow> bool \<Rightarrow> table \<times> bool list" where
  "solve_loop t prev_zeros assign_random =
     (let zeros = number_of_empty_cells t in
      if zeros = 0 then (t, [])
      else if zeros = prev_zeros \<and> assign_random then (t, [])
      else let assign_random' = (assign_random \<or> zeros = prev_zeros);
               (t', passes) = solve_loop (single_pass t assign_random') zeros assign_random'
           in (t', assign_random' # passes))"
  by pat_completeness auto
termination
proof (relation "measure (\<lambda>(t, prev_zeros, assign_random).
    number_of_empty_cells t + (if assign_random then 0 else 1)
      + (if number_of_empty_cells t = prev_zeros then 0 else 1))")
  show "wf (measure (\<lambda>(t, prev_zeros, assign_random).
    number_of_empty_cells t + (if assign_random then 0 else 1)
      + (if number_of_empty_cells t = prev_zeros then 0 else 1)))" by simp
next
  fix t :: table and prev_zeros :: nat and assign_random zeros x
  assume a: "zeros = number_of_empty_cells t" "zeros \<noteq> 0"
    "\<not> (zeros = prev_zeros \<and> assign_random)" "x = (assign_random \<or> zeros = prev_zeros)"
  have "number_of_empty_cells (single_pass t x) \<le> number_of_empty_cells t"
    by (rule fills_zeros_le) (rule single_pass_fills)
  with a show "((single_pass t x, zeros, x), t, prev_zeros, assign_random)
       \<in> measure (\<lambda>(t, prev_zeros, assign_random).
    number_of_empty_cells t + (if assign_random then 0 else 1)
      + (if number_of_empty_cells t = prev_zeros then 0 else 1))"
    by (auto split: if_splits)
qed

declare solve_loop.simps [simp del]

definition solve :: "table \<Rightarrow> table" where
  "solve t = fst (solve_loop t 81 False)"

definition solve_passes :: "table \<Rightarrow> bool list" where
  "solve_passes t = snd (solve_loop t 81 False)"


definition empty_table :: table where
  \<comment> \<open>the puzzle with 81 blanks\<close>
  "empty_table = (\<lambda>i j. 0)"

definition solved_table :: table where
  \<comment> \<open>a completed sudoku: row \<open>i\<close> is 1 to 9 rotated by \<open>3 * i + i div 3\<close>\<close>
  "solved_table = (\<lambda>i j. int ((3 * i + i div 3 + j) mod 9) + 1)"

definition dead_end_table :: table where
  \<comment> \<open>row 0 is \<^verbatim>\<open>- 1 2 3 4 5 6 7 8\<close>, a 9 stands below it in column 0, all else is blank\<close>
  "dead_end_table = (\<lambda>i j. if i = 0 then (if j = 0 then 0 else int j)
                           else if i = 3 \<and> j = 0 then 9 else 0)"

definition one_given_table :: table where
  \<comment> \<open>a single 5 in the middle cell, all else blank\<close>
  "one_given_table = store empty_table 4 4 5"

section \<open>Properties of the solver loop\<close>

lemma solve_loop_passes_bound:
  "length (snd (solve_loop t prev_zeros assign_random)) \<le>
     number_of_empty_cells t + (if assign_random then 0 else 1)
       + (if number_of_empty_cells t = prev_zeros then 0 else 1)"
proof (induction t prev_zeros assign_random rule: solve_loop.induct)
  case (1 t prev_zeros assign_random)
  let ?z = "number_of_empty_cells t"
  show ?case
  proof (cases "?z = 0 \<or> (?z = prev_zeros \<and> assign_random)")
    case True
    then show ?thesis by (subst solve_loop.simps) (auto simp: Let_def)
  next
    case False
    let ?a = "assign_random \<or> ?z = prev_zeros"
    let ?t = "single_pass t ?a"
    have le: "number_of_empty_cells ?t \<le> ?z"
      by (rule fills_zeros_le) (rule single_pass_fills)
    have ih: "length (snd (solve_loop ?t ?z ?a)) \<le>
        number_of_empty_cells ?t + (if ?a then 0 else 1)
          + (if number_of_empty_cells ?t = ?z then 0 else 1)"
      using False by (intro "1.IH") auto
    have "snd (solve_loop t prev_zeros assign_random) = ?a # snd (solve_loop ?t ?z ?a)"
      using False by (subst solve_loop.simps) (auto simp: Let_def split: prod.splits)
    with ih le False show ?thesis by (auto split: if_splits)
  qed
qed

lemma solve_loop_fills: "fills t (fst (solve_loop t prev_zeros assign_random))"
proof (induction t prev_zeros assign_random rule: solve_loop.induct)
  case (1 t prev_zeros assign_random)
  let ?z = "number_of_empty_cells t"
  show ?case
  proof (cases "?z = 0 \<or> (?z = prev_zeros \<and> assign_random)")
    case True
    then show ?thesis by (subst solve_loop.simps) (auto simp: Let_def fills_refl)
  next
    case False
    let ?a = "assign_random \<or> ?z = prev_zeros"
    let ?t = "single_pass t ?a"
    have ih: "fills ?t (fst (solve_loop ?t ?z ?a))"
      using False by (intro "1.IH") auto
    have "fst (solve_loop t prev_zeros assign_random) = fst (solve_loop ?t ?z ?a)"
      using False by (subst solve_loop.simps) (auto simp: Let_def split: prod.splits)
    with ih single_pass_fills [of t ?a] show ?thesis by (auto intro: fills_trans)
  qed
qed

lemma solved_table_no_blank: "number_of_empty_cells solved_table = 0"
  by (simp add: number_of_empty_cells_filter solved_table_def)

text \<open>
  Claim C6. For every input table \<^verbatim>\<open>solve\<close> terminates (\<open>solve_loop\<close> is a total
  function, by the termination proof above), and it calls \<^verbatim>\<open>single_pass\<close> at most
  83 times.
\<close>

theorem solve_at_most_83_passes: "length (solve_passes t) \<le> 83"
proof -
  have "length (solve_passes t) \<le>
     number_of_empty_cells t + 1 + (if number_of_empty_cells t = 81 then 0 else 1)"
    unfolding solve_passes_def using solve_loop_passes_bound [of t 81 False] by simp
  also have "\<dots> \<le> 83" using number_of_empty_cells_le [of t] by simp
  finally show ?thesis .
qed

theorem solve_at_most_83_passes_witness: "length (solve_passes empty_table) \<le> 83"
  by (rule solve_at_most_83_passes)

text \<open>
  Claim C8. On a table without blank cells \<^verbatim>\<open>solve\<close> returns at once: it calls
  \<^verbatim>\<open>single_pass\<close> not even once, and the table it leaves is the table it was given.
\<close>

theorem solve_no_blank_immediate:
  "number_of_empty_cells t = 0 \<Longrightarrow> solve t = t \<and> solve_passes t = []"
  unfolding solve_def solve_passes_def by (subst (1 2) solve_loop.simps) simp

theorem solve_no_blank_immediate_witness:
  "number_of_empty_cells solved_table = 0 \<and> solve solved_table = solved_table
     \<and> solve_passes solved_table = []"
  using solve_no_blank_immediate [OF solved_table_no_blank] solved_table_no_blank by simp


section \<open>The block check\<close>

lemma block_range:
  "(i \<in> set [row - row mod 3..<row - row mod 3 + 3]) = (i div 3 = row div (3::nat))"
proof -
  define q where "q = row div 3"
  define k where "k = i div 3"
  define m where "m = i mod 3"
  have r: "row - row mod 3 = 3 * q" by (simp add: q_def minus_mod_eq_mult_div)
  have i: "i = 3 * k + m" by (simp add: k_def m_def)
  have m: "m < 3" by (simp add: m_def)
  have "(3 * q \<le> 3 * k + m \<and> 3 * k + m < 3 * q + 3) = (k = q)"
    using m by linarith
  then show ?thesis
    unfolding set_upt atLeastLessThan_iff r q_def [symmetric] k_def [symmetric] using i by simp
qed

lemma allowed_in_block_iff:
  "allowed_in_block t row col num =
     (\<not> (\<exists>i j. i div 3 = row div 3 \<and> j div 3 = col div 3 \<and> i \<noteq> row \<and> j \<noteq> col \<and> t i j = num))"
  unfolding allowed_in_block_def Let_def list_ex_iff Bex_def block_range by blast

text \<open>
  Claim C7. \<^verbatim>\<open>allowed_in_block\<close> returns false exactly when the digit stands at a cell
  \<open>(i, j)\<close> of the 3 by 3 block of \<open>(row, col)\<close> with \<open>i \<noteq> row\<close> and \<open>j \<noteq> col\<close>. The cells
  of the block that share the row index or the column index are never read: changing
  them (or any cell with \<open>i = row\<close> or \<open>j = col\<close>) does not change the result. This holds
  for all indices and digits, in particular for \<open>row, col < 9\<close> and digits 1 to 9.
\<close>

theorem allowed_in_block_skips_row_and_col:
  "(allowed_in_block t row col num = False) =
     (\<exists>i j. i div 3 = row div 3 \<and> j div 3 = col div 3 \<and> i \<noteq> row \<and> j \<noteq> col \<and> t i j = num)
   \<and> ((\<forall>i j. i \<noteq> row \<and> j \<noteq> col \<longrightarrow> t' i j = t i j) \<longrightarrow>
        allowed_in_block t' row col num = allowed_in_block t row col num)"
proof (intro conjI impI)
  show "(allowed_in_block t row col num = False) =
     (\<exists>i j. i div 3 = row div 3 \<and> j div 3 = col div 3 \<and> i \<noteq> row \<and> j \<noteq> col \<and> t i j = num)"
    by (simp add: allowed_in_block_iff)
next
  assume same: "\<forall>i j. i \<noteq> row \<and> j \<noteq> col \<longrightarrow> t' i j = t i j"
  have "(\<exists>i j. i div 3 = row div 3 \<and> j div 3 = col div 3 \<and> i \<noteq> row \<and> j \<noteq> col \<and> t' i j = num) =
        (\<exists>i j. i div 3 = row div 3 \<and> j div 3 = col div 3 \<and> i \<noteq> row \<and> j \<noteq> col \<and> t i j = num)"
    by (intro iff_exI) (use same in auto)
  then show "allowed_in_block t' row col num = allowed_in_block t row col num"
    by (simp only: allowed_in_block_iff)
qed

theorem allowed_in_block_skips_row_and_col_witness:
  "allowed_in_block (store empty_table 0 0 7) 1 1 7 = False
   \<and> allowed_in_block (store empty_table 1 0 7) 1 1 7 = allowed_in_block empty_table 1 1 7
   \<and> allowed_in_block empty_table 1 1 7 \<noteq> False"
proof -
  have a: "\<exists>i j. i div 3 = (1::nat) div 3 \<and> j div 3 = (1::nat) div 3 \<and> i \<noteq> 1 \<and> j \<noteq> 1
             \<and> store empty_table 0 0 7 i j = 7"
    by (rule exI [of _ 0], rule exI [of _ 0]) (simp add: store_def)
  have b: "\<forall>i j. i \<noteq> 1 \<and> j \<noteq> 1 \<longrightarrow> store empty_table 1 0 7 i j = empty_table i j"
    by (simp add: store_def)
  have c: "\<not> (\<exists>i j. i div 3 = (1::nat) div 3 \<and> j div 3 = (1::nat) div 3 \<and> i \<noteq> 1 \<and> j \<noteq> 1
             \<and> empty_table i j = 7)"
    by (simp add: empty_table_def)
  have 1: "allowed_in_block (store empty_table 0 0 7) 1 1 7 = False"
    by (rule iffD2 [OF conjunct1 [OF allowed_in_block_skips_row_and_col]]) (rule a)
  have 2: "allowed_in_block (store empty_table 1 0 7) 1 1 7 = allowed_in_block empty_table 1 1 7"
    by (rule mp [OF conjunct2 [OF allowed_in_block_skips_row_and_col]]) (rule b)
  have "(allowed_in_block empty_table 1 1 7 = False) =
     (\<exists>i j. i div 3 = (1::nat) div 3 \<and> j div 3 = (1::nat) div 3 \<and> i \<noteq> 1 \<and> j \<noteq> 1
             \<and> empty_table i j = 7)"
    by (rule conjunct1 [OF allowed_in_block_skips_row_and_col])
  with c have 3: "allowed_in_block empty_table 1 1 7 \<noteq> False" by simp
  from 1 2 3 show ?thesis by (intro conjI)
qed


section \<open>Mutations\<close>

text \<open>
  Claim C10. Every write of the solver puts a digit 1 to 9 into a cell that is blank when
  it is written. \<^verbatim>\<open>select_allowed\<close> either leaves the table alone or stores a digit
  1 to 9 at its position, and the sweep of \<^verbatim>\<open>single_pass\<close> calls it on blank cells
  only; \<^verbatim>\<open>select_possible_in_row\<close>, \<^verbatim>\<open>select_possible_in_col\<close> and
  \<^verbatim>\<open>select_possible_in_block\<close> either leave the table alone or store their digit
  (one of 1 to 9 in every call of \<^verbatim>\<open>single_pass\<close>) at a blank cell of their unit.
  So a pass, and the whole of \<^verbatim>\<open>solve\<close>, only fills blanks: no non-blank cell ever
  changes, and every cell given in the input is the same in the output.
\<close>

theorem writes_only_fill_blanks:
  "(select_allowed t row col b = t
      \<or> (\<exists>d. 1 \<le> d \<and> d \<le> 9 \<and> select_allowed t row col b = store t row col d))
   \<and> (t row col \<noteq> 0 \<longrightarrow> sweep_cell row col (t, b) = (t, b))
   \<and> (select_possible_in_row t row num = t
      \<or> (\<exists>j<9. t row j = 0 \<and> select_possible_in_row t row num = store t row j num))
   \<and> (select_possible_in_col t col num = t
      \<or> (\<exists>i<9. t i col = 0 \<and> select_possible_in_col t col num = store t i col num))
   \<and> (select_possible_in_block t row col num = t
      \<or> (\<exists>i j. row \<le> i \<and> i < row + 3 \<and> col \<le> j \<and> j < col + 3 \<and> t i j = 0
            \<and> select_possible_in_block t row col num = store t i j num))
   \<and> fills t (single_pass t b)
   \<and> fills t (solve t)
   \<and> (t i j \<noteq> 0 \<longrightarrow> solve t i j = t i j)"
proof (intro conjI)
  show "select_allowed t row col b = t
      \<or> (\<exists>d. 1 \<le> d \<and> d \<le> 9 \<and> select_allowed t row col b = store t row col d)"
  proof (cases "candidates t row col = []")
    case True
    then show ?thesis by (simp add: select_allowed_eq)
  next
    case False
    then have "last (candidates t row col) \<in> set (candidates t row col)" by (rule last_in_set)
    then have "1 \<le> last (candidates t row col) \<and> last (candidates t row col) \<le> 9"
      by (rule candidates_range)
    then show ?thesis by (auto simp: select_allowed_eq)
  qed
next
  show "t row col \<noteq> 0 \<longrightarrow> sweep_cell row col (t, b) = (t, b)"
    by (simp add: sweep_cell_def)
next
  let ?P = "\<lambda>j. t row j = 0 \<and> allowed_in_col t j num \<and> allowed_in_block t row j num"
  show "select_possible_in_row t row num = t
      \<or> (\<exists>j<9. t row j = 0 \<and> select_possible_in_row t row num = store t row j num)"
  proof (cases "allowed_in_row t row num \<and> length (filter ?P [0..<9]) = 1")
    case True
    then have "last (filter ?P [0..<9]) \<in> set [0..<9] \<and> ?P (last (filter ?P [0..<9]))"
      by (intro single_hit) simp
    with True show ?thesis
      by (intro disjI2 exI [of _ "last (filter ?P [0..<9])"])
        (simp add: select_possible_in_row_eq Let_def)
  next
    case False
    then show ?thesis by (auto simp: select_possible_in_row_eq Let_def)
  qed
next
  let ?P = "\<lambda>i. t i col = 0 \<and> allowed_in_row t i num \<and> allowed_in_block t i col num"
  show "select_possible_in_col t col num = t
      \<or> (\<exists>i<9. t i col = 0 \<and> select_possible_in_col t col num = store t i col num)"
  proof (cases "allowed_in_col t col num \<and> length (filter ?P [0..<9]) = 1")
    case True
    then have "last (filter ?P [0..<9]) \<in> set [0..<9] \<and> ?P (last (filter ?P [0..<9]))"
      by (intro single_hit) simp
    with True show ?thesis
      by (intro disjI2 exI [of _ "last (filter ?P [0..<9])"])
        (simp add: select_possible_in_col_eq Let_def)
  next
    case False
    then show ?thesis by (auto simp: select_possible_in_col_eq Let_def)
  qed
next
  let ?P = "\<lambda>(i, j). t i j = 0 \<and> allowed_at_position t i j num"
  let ?xs = "List.product [row..<row + 3] [col..<col + 3]"
  show "select_possible_in_block t row col num = t
      \<or> (\<exists>i j. row \<le> i \<and> i < row + 3 \<and> col \<le> j \<and> j < col + 3 \<and> t i j = 0
            \<and> select_possible_in_block t row col num = store t i j num)"
  proof (cases "allowed_in_block t row col num \<and> length (filter ?P ?xs) = 1")
    case True
    then have h: "last (filter ?P ?xs) \<in> set ?xs \<and> ?P (last (filter ?P ?xs))"
      by (intro single_hit) simp
    obtain i j where ij: "last (filter ?P ?xs) = (i, j)" by (cases "last (filter ?P ?xs)")
    with h have "row \<le> i \<and> i < row + 3 \<and> col \<le> j \<and> j < col + 3 \<and> t i j = 0" by auto
    moreover have "select_possible_in_block t row col num = store t i j num"
      using True ij by (simp add: select_possible_in_block_eq Let_def)
    ultimately show ?thesis by blast
  next
    case False
    then show ?thesis by (auto simp: select_possible_in_block_eq Let_def)
  qed
next
  show "fills t (single_pass t b)" by (rule single_pass_fills)
next
  show "fills t (solve t)" unfolding solve_def by (rule solve_loop_fills)
next
  have "fills t (solve t)" unfolding solve_def by (rule solve_loop_fills)
  then have "solve t i j = t i j \<or> t i j = 0" unfolding fills_def by blast
  then show "t i j \<noteq> 0 \<longrightarrow> solve t i j = t i j" by blast
qed

theorem writes_only_fill_blanks_witness:
  "store empty_table 4 4 5 4 4 = 5 \<and> solve (store empty_table 4 4 5) 4 4 = 5
   \<and> sweep_cell 4 4 (store empty_table 4 4 5, True) = (store empty_table 4 4 5, True)
   \<and> fills (store empty_table 4 4 5) (solve (store empty_table 4 4 5))"
proof -
  have v: "store empty_table 4 4 5 4 4 = 5" by (simp add: store_def)
  then have n: "store empty_table 4 4 5 4 4 \<noteq> 0" by simp
  note w = writes_only_fill_blanks [of "store empty_table 4 4 5" 4 4 True 1 4 4]
  from w n have "solve (store empty_table 4 4 5) 4 4 = store empty_table 4 4 5 4 4" by blast
  moreover from w n have "sweep_cell 4 4 (store empty_table 4 4 5, True) = (store empty_table 4 4 5, True)"
    by blast
  moreover from w have "fills (store empty_table 4 4 5) (solve (store empty_table 4 4 5))" by blast
  ultimately show ?thesis using v by simp
qed


section \<open>The validator decides solved grids\<close>

lemma expected_frequency_replicate: "expected_frequency = replicate 9 1"
  by (simp add: expected_frequency_def numeral_eq_Suc)

lemma fold_frequency:
  assumes "\<forall>v\<in>set vs. 1 \<le> v \<and> v \<le> 9" "length f = 9"
  shows "length (fold (\<lambda>v frequency. frequency[nat (v - 1) := frequency ! nat (v - 1) + 1]) vs f) = 9
     \<and> (\<forall>k<9. fold (\<lambda>v frequency. frequency[nat (v - 1) := frequency ! nat (v - 1) + 1]) vs f ! k
            = f ! k + count_list vs (int k + 1))"
  using assms
proof (induction vs arbitrary: f)
  case Nil
  then show ?case by simp
next
  case (Cons v vs)
  let ?f = "f[nat (v - 1) := f ! nat (v - 1) + 1]"
  have v: "1 \<le> v" "v \<le> 9" using Cons.prems by auto
  have ih: "length (fold (\<lambda>v frequency. frequency[nat (v - 1) := frequency ! nat (v - 1) + 1]) vs ?f) = 9
     \<and> (\<forall>k<9. fold (\<lambda>v frequency. frequency[nat (v - 1) := frequency ! nat (v - 1) + 1]) vs ?f ! k
            = ?f ! k + count_list vs (int k + 1))"
    by (rule Cons.IH) (use Cons.prems in auto)
  have "\<forall>k<9. ?f ! k + count_list vs (int k + 1) = f ! k + count_list (v # vs) (int k + 1)"
  proof (intro allI impI)
    fix k :: nat assume "k < 9"
    then have "k < length f" using Cons.prems by simp
    moreover have "(nat (v - 1) = k) = (v = int k + 1)" using v by auto
    ultimately show "?f ! k + count_list vs (int k + 1) = f ! k + count_list (v # vs) (int k + 1)"
      by (auto simp: nth_list_update)
  qed
  with ih show ?case by simp
qed

lemma count_frequency_expected:
  assumes "\<forall>v\<in>set vs. 1 \<le> v \<and> v \<le> 9"
  shows "(count_frequency vs = expected_frequency) = (\<forall>d\<in>{1..9}. count_list vs d = 1)"
proof -
  have f: "length (count_frequency vs) = 9
     \<and> (\<forall>k<9. count_frequency vs ! k = count_list vs (int k + 1))"
    unfolding count_frequency_def using fold_frequency [OF assms, of "replicate 9 0"] by simp
  have "(count_frequency vs = expected_frequency) = (\<forall>k<9. count_list vs (int k + 1) = 1)"
    using f by (auto simp: expected_frequency_replicate list_eq_iff_nth_eq)
  also have "\<dots> = (\<forall>d\<in>{1..9}. count_list vs d = 1)"
  proof
    assume a: "\<forall>k<9. count_list vs (int k + 1) = 1"
    show "\<forall>d\<in>{1..9}. count_list vs d = 1"
    proof
      fix d :: int assume "d \<in> {1..9}"
      then have "nat (d - 1) < 9" "int (nat (d - 1)) + 1 = d" by auto
      with a show "count_list vs d = 1" by metis
    qed
  next
    assume "\<forall>d\<in>{1..9}. count_list vs d = 1"
    then show "\<forall>k<9. count_list vs (int k + 1) = 1" by auto
  qed
  finally show ?thesis .
qed

lemma count_list_map_card:
  assumes "distinct xs"
  shows "count_list (map f xs) d = card {x \<in> set xs. f x = d}"
proof -
  have "count_list (map f xs) d = length (filter (\<lambda>x. f x = d) xs)"
    by (induction xs) auto
  also have "\<dots> = card {x \<in> set xs. f x = d}"
    using distinct_card [of "filter (\<lambda>x. f x = d) xs"] assms by simp
  finally show ?thesis .
qed

lemma concat_map_product:
  "concat (map (\<lambda>k. map (\<lambda>l. f k l) ys) xs) = map (\<lambda>(k, l). f k l) (List.product xs ys)"
  by (induction xs) simp_all

lemma block_product_set:
  "bi < 3 \<Longrightarrow> bj < 3 \<Longrightarrow>
   set (List.product [3 * bi..<3 * bi + 3] [3 * bj..<3 * bj + 3]) =
     {(i, j). i div 3 = bi \<and> j div 3 = bj}"
  by auto

lemma in_range_iff:
  "(\<not> list_ex (\<lambda>i. list_ex (\<lambda>j. t i j < 1 \<or> t i j > 9) [0..<9]) [0..<9]) =
     (\<forall>i<9. \<forall>j<9. 1 \<le> t i j \<and> t i j \<le> (9::int))"
  unfolding list_ex_iff set_upt Bex_def atLeastLessThan_iff by (simp add: not_less) (metis not_le)

lemma rows_iff:
  assumes "\<forall>i<9. \<forall>j<9. 1 \<le> t i j \<and> t i j \<le> (9::int)"
  shows "(\<not> list_ex (\<lambda>i. count_frequency (map (\<lambda>j. t i j) [0..<9]) \<noteq> expected_frequency) [0..<9]) =
     (\<forall>i<9. \<forall>d\<in>{1..9}. card {j. j < 9 \<and> t i j = d} = 1)"
proof -
  have "\<And>i. i < 9 \<Longrightarrow>
      (count_frequency (map (\<lambda>j. t i j) [0..<9]) = expected_frequency) =
      (\<forall>d\<in>{1..9}. card {j. j < 9 \<and> t i j = d} = 1)"
    using assms by (subst count_frequency_expected) (auto simp: count_list_map_card)
  then show ?thesis by (auto simp: list_ex_iff)
qed

lemma cols_iff:
  assumes "\<forall>i<9. \<forall>j<9. 1 \<le> t i j \<and> t i j \<le> (9::int)"
  shows "(\<not> list_ex (\<lambda>j. count_frequency (map (\<lambda>i. t i j) [0..<9]) \<noteq> expected_frequency) [0..<9]) =
     (\<forall>j<9. \<forall>d\<in>{1..9}. card {i. i < 9 \<and> t i j = d} = 1)"
proof -
  have "\<And>j. j < 9 \<Longrightarrow>
      (count_frequency (map (\<lambda>i. t i j) [0..<9]) = expected_frequency) =
      (\<forall>d\<in>{1..9}. card {i. i < 9 \<and> t i j = d} = 1)"
    using assms by (subst count_frequency_expected) (auto simp: count_list_map_card)
  then show ?thesis by (auto simp: list_ex_iff)
qed

lemma block_starts: "(\<forall>i\<in>set [0, 3, 6::nat]. P i) = (\<forall>b<3. P (3 * b))"
proof
  assume a: "\<forall>i\<in>set [0, 3, 6::nat]. P i"
  show "\<forall>b<3. P (3 * b)"
  proof (intro allI impI)
    fix b :: nat assume "b < 3"
    then have "b = 0 \<or> b = 1 \<or> b = 2" by arith
    with a show "P (3 * b)" by auto
  qed
next
  assume a: "\<forall>b<3. P (3 * b)"
  from a [rule_format, of 0] a [rule_format, of 1] a [rule_format, of 2]
  show "\<forall>i\<in>set [0, 3, 6::nat]. P i" by simp
qed

lemma block_frequency:
  assumes r: "\<forall>i<9. \<forall>j<9. 1 \<le> t i j \<and> t i j \<le> (9::int)" and b: "bi < 3" "bj < 3"
  shows "(count_frequency (concat (map (\<lambda>k. map (\<lambda>l. t k l) [3 * bj..<3 * bj + 3])
            [3 * bi..<3 * bi + 3])) = expected_frequency) =
         (\<forall>d\<in>{1..9}. card {(i, j). i div 3 = bi \<and> j div 3 = bj \<and> t i j = d} = 1)"
proof -
  let ?ps = "List.product [3 * bi..<3 * bi + 3] [3 * bj..<3 * bj + 3]"
  let ?vs = "map (\<lambda>(k, l). t k l) ?ps"
  have d: "distinct ?ps" by (simp add: distinct_product)
  have s: "set ?ps = {(i, j). i div 3 = bi \<and> j div 3 = bj}"
    using b by (rule block_product_set)
  have "\<forall>v\<in>set ?vs. 1 \<le> v \<and> v \<le> 9" using r b by auto
  then have "(count_frequency ?vs = expected_frequency) = (\<forall>d\<in>{1..9}. count_list ?vs d = 1)"
    by (rule count_frequency_expected)
  moreover have "\<And>d. count_list ?vs d = card {(i, j). i div 3 = bi \<and> j div 3 = bj \<and> t i j = d}"
  proof -
    fix d
    have "{x \<in> set ?ps. (case x of (k, l) \<Rightarrow> t k l) = d} =
          {(i, j). i div 3 = bi \<and> j div 3 = bj \<and> t i j = d}"
      unfolding s by auto
    then show "count_list ?vs d = card {(i, j). i div 3 = bi \<and> j div 3 = bj \<and> t i j = d}"
      using count_list_map_card [OF d, of "\<lambda>(k, l). t k l" d] by simp
  qed
  ultimately show ?thesis by (simp add: concat_map_product)
qed

lemma blocks_iff:
  assumes "\<forall>i<9. \<forall>j<9. 1 \<le> t i j \<and> t i j \<le> (9::int)"
  shows "(\<not> list_ex (\<lambda>i. list_ex (\<lambda>j.
             count_frequency (concat (map (\<lambda>k. map (\<lambda>l. t k l) [j..<j + 3]) [i..<i + 3]))
               \<noteq> expected_frequency) [0, 3, 6]) [0, 3, 6]) =
     (\<forall>bi<3. \<forall>bj<3. \<forall>d\<in>{1..9}. card {(i, j). i div 3 = bi \<and> j div 3 = bj \<and> t i j = d} = 1)"
proof -
  have "(\<not> list_ex (\<lambda>i. list_ex (\<lambda>j.
             count_frequency (concat (map (\<lambda>k. map (\<lambda>l. t k l) [j..<j + 3]) [i..<i + 3]))
               \<noteq> expected_frequency) [0, 3, 6]) [0, 3, 6]) =
        (\<forall>i\<in>set [0, 3, 6]. \<forall>j\<in>set [0, 3, 6].
             count_frequency (concat (map (\<lambda>k. map (\<lambda>l. t k l) [j..<j + 3]) [i..<i + 3]))
               = expected_frequency)"
    unfolding list_ex_iff by blast
  also have "\<dots> = (\<forall>bi<3. \<forall>bj<3.
             count_frequency (concat (map (\<lambda>k. map (\<lambda>l. t k l) [3 * bj..<3 * bj + 3])
               [3 * bi..<3 * bi + 3])) = expected_frequency)"
    unfolding block_starts ..
  also have "\<dots> = (\<forall>bi<3. \<forall>bj<3. \<forall>d\<in>{1..9}.
             card {(i, j). i div 3 = bi \<and> j div 3 = bj \<and> t i j = d} = 1)"
    using block_frequency [OF assms] by simp
  finally show ?thesis .
qed

lemma valid_is_solution: "valid t = is_solution t"
proof (cases "\<forall>i<9. \<forall>j<9. 1 \<le> t i j \<and> t i j \<le> 9")
  case True
  have "valid t =
     ((\<not> list_ex (\<lambda>i. list_ex (\<lambda>j. t i j < 1 \<or> t i j > 9) [0..<9]) [0..<9])
      \<and> (\<not> list_ex (\<lambda>i. count_frequency (map (\<lambda>j. t i j) [0..<9]) \<noteq> expected_frequency) [0..<9])
      \<and> (\<not> list_ex (\<lambda>j. count_frequency (map (\<lambda>i. t i j) [0..<9]) \<noteq> expected_frequency) [0..<9])
      \<and> (\<not> list_ex (\<lambda>i. list_ex (\<lambda>j.
             count_frequency (concat (map (\<lambda>k. map (\<lambda>l. t k l) [j..<j + 3]) [i..<i + 3]))
               \<noteq> expected_frequency) [0, 3, 6]) [0, 3, 6]))"
    unfolding valid_def by simp
  then show ?thesis
    unfolding in_range_iff rows_iff [OF True] cols_iff [OF True] blocks_iff [OF True] is_solution_def .
next
  case False
  then have "list_ex (\<lambda>i. list_ex (\<lambda>j. t i j < 1 \<or> t i j > 9) [0..<9]) [0..<9]"
    using in_range_iff [of t] by blast
  then have "valid t = False" by (simp add: valid_def)
  with False show ?thesis by (simp add: is_solution_def)
qed

lemma valid_solved_table: "valid solved_table"
  by code_simp

text \<open>
  Claim C5. For every table, filled or partly blank, \<^verbatim>\<open>valid\<close> returns true exactly
  when every cell holds a digit 1 to 9 and each of the 9 rows, 9 columns and 9 blocks
  contains each digit 1 to 9 exactly once. A blank cell anywhere makes it return false.
\<close>

theorem valid_iff_solution:
  "valid t = is_solution t \<and> ((\<exists>i<9. \<exists>j<9. t i j = 0) \<longrightarrow> valid t = False)"
proof (intro conjI impI)
  show "valid t = is_solution t" by (rule valid_is_solution)
next
  assume "\<exists>i<9. \<exists>j<9. t i j = 0"
  then have "\<not> (\<forall>i<9. \<forall>j<9. 1 \<le> t i j \<and> t i j \<le> 9)" by fastforce
  then have "\<not> is_solution t" by (simp add: is_solution_def)
  then show "valid t = False" by (simp add: valid_is_solution)
qed

theorem valid_iff_solution_witness:
  "valid solved_table \<and> is_solution solved_table \<and> valid (store solved_table 2 7 0) = False"
proof -
  have b: "\<exists>i<9. \<exists>j<9. store solved_table 2 7 0 i j = 0"
    by (rule exI [of _ 2], simp, rule exI [of _ 7], simp add: store_def)
  have "is_solution solved_table"
    using valid_iff_solution [of solved_table] valid_solved_table by simp
  moreover have "valid (store solved_table 2 7 0) = False"
    using valid_iff_solution [of "store solved_table 2 7 0"] b by blast
  ultimately show ?thesis using valid_solved_table by simp
qed


section \<open>Passes that change nothing, and passes that guess\<close>

lemma fold_fixed: "(\<And>x. x \<in> set xs \<Longrightarrow> f x t = t) \<Longrightarrow> fold f xs t = t"
  by (induction xs) simp_all

lemma select_possible_stuck:
  assumes "hidden_single_free t" "1 \<le> num" "num \<le> 9"
  shows "select_possible t num = t"
proof -
  have n: "num \<in> set [1..9]" using assms(2,3) by simp
  have "\<forall>num\<in>set [1..9].
        (\<forall>i\<in>set [0..<9]. \<not> (allowed_in_row t i num \<and> length (row_hits t i num) = 1))
        \<and> (\<forall>j\<in>set [0..<9]. \<not> (allowed_in_col t j num \<and> length (col_hits t j num) = 1))
        \<and> (\<forall>(i, j)\<in>set (List.product [0, 3, 6] [0, 3, 6]).
              \<not> (allowed_in_block t i j num \<and> length (block_hits t i j num) = 1))"
    using assms(1) unfolding hidden_single_free_def list_all_iff .
  from this [rule_format, OF n] have
    r: "\<forall>i\<in>set [0..<9]. \<not> (allowed_in_row t i num \<and> length (row_hits t i num) = 1)" and
    c: "\<forall>j\<in>set [0..<9]. \<not> (allowed_in_col t j num \<and> length (col_hits t j num) = 1)" and
    b: "\<forall>(i, j)\<in>set (List.product [0, 3, 6] [0, 3, 6]).
          \<not> (allowed_in_block t i j num \<and> length (block_hits t i j num) = 1)"
    by blast+
  have 1: "fold (\<lambda>i t. select_possible_in_row t i num) [0..<9] t = t"
  proof (rule fold_fixed)
    fix i assume "i \<in> set [0..<9]"
    with r have "\<not> (allowed_in_row t i num \<and> length (row_hits t i num) = 1)" by (rule bspec)
    then show "select_possible_in_row t i num = t"
      unfolding select_possible_in_row_eq row_hits_def Let_def by (simp only: if_False)
  qed
  have 2: "fold (\<lambda>j t. select_possible_in_col t j num) [0..<9] t = t"
  proof (rule fold_fixed)
    fix j assume "j \<in> set [0..<9]"
    with c have "\<not> (allowed_in_col t j num \<and> length (col_hits t j num) = 1)" by (rule bspec)
    then show "select_possible_in_col t j num = t"
      unfolding select_possible_in_col_eq col_hits_def Let_def by (simp only: if_False)
  qed
  have 3: "fold (\<lambda>(i, j) t. select_possible_in_block t i j num) (List.product [0, 3, 6] [0, 3, 6]) t = t"
  proof (rule fold_fixed)
    fix x :: "nat \<times> nat" assume x: "x \<in> set (List.product [0, 3, 6] [0, 3, 6])"
    obtain i j where ij: "x = (i, j)" by (cases x)
    from b x ij have "\<not> (allowed_in_block t i j num \<and> length (block_hits t i j num) = 1)"
      by blast
    then have "select_possible_in_block t i j num = t"
      unfolding select_possible_in_block_eq block_hits_def Let_def by (simp only: if_False)
    then show "(case x of (i, j) \<Rightarrow> \<lambda>t. select_possible_in_block t i j num) t = t"
      by (simp add: ij)
  qed
  show ?thesis unfolding select_possible_eq 1 2 3 ..
qed

lemma sweep_append: "sweep (xs @ ys) s = sweep ys (sweep xs s)"
  by (simp add: sweep_def)

lemma sweep_nonblank: "(\<And>i j. (i, j) \<in> set cs \<Longrightarrow> t i j \<noteq> 0) \<Longrightarrow> sweep cs (t, b) = (t, b)"
proof (induction cs)
  case Nil
  then show ?case by (simp add: sweep_simps)
next
  case (Cons c cs)
  obtain i j where c: "c = (i, j)" by (cases c)
  have "t i j \<noteq> 0" using Cons.prems [of i j] c by simp
  then have "sweep_cell i j (t, b) = (t, b)" by (simp add: sweep_cell_def)
  moreover have "sweep cs (t, b) = (t, b)" by (rule Cons.IH) (rule Cons.prems, simp)
  ultimately show ?case by (simp add: c sweep_simps)
qed

lemma sweep_stuck:
  "(\<And>i j. (i, j) \<in> set cs \<Longrightarrow> t i j \<noteq> 0 \<or> length (candidates t i j) \<noteq> 1)
     \<Longrightarrow> sweep cs (t, False) = (t, False)"
proof (induction cs)
  case Nil
  then show ?case by (simp add: sweep_simps)
next
  case (Cons c cs)
  obtain i j where c: "c = (i, j)" by (cases c)
  have "t i j \<noteq> 0 \<or> length (candidates t i j) \<noteq> 1" using Cons.prems [of i j] c by simp
  then have "sweep_cell i j (t, False) = (t, False)"
    by (auto simp: sweep_cell_def select_allowed_eq)
  moreover have "sweep cs (t, False) = (t, False)" by (rule Cons.IH) (rule Cons.prems, simp)
  ultimately show ?case by (simp add: c sweep_simps)
qed

lemma naked_single_freeD:
  "naked_single_free t \<Longrightarrow> (i, j) \<in> set cells \<Longrightarrow> t i j \<noteq> 0 \<or> length (candidates t i j) \<noteq> 1"
  unfolding naked_single_free_def list_all_iff by auto

lemma single_pass_stuck:
  assumes "naked_single_free t" "hidden_single_free t"
  shows "single_pass t False = t"
proof -
  have "sweep cells (t, False) = (t, False)"
    by (rule sweep_stuck) (rule naked_single_freeD [OF assms(1)])
  moreover have "fold (\<lambda>num t. select_possible t num) [1..9] t = t"
    by (rule fold_fixed) (simp add: select_possible_stuck [OF assms(2)])
  ultimately show ?thesis by (simp add: single_pass_eq)
qed

lemma single_pass_guess:
  assumes cs: "cells = pre @ (i, j) # post"
    and pre: "\<And>a b. (a, b) \<in> set pre \<Longrightarrow> t a b \<noteq> 0"
    and blank: "t i j = 0"
    and cand: "candidates t i j \<noteq> []"
    and stuck: "naked_single_free (store t i j (last (candidates t i j)))"
               "hidden_single_free (store t i j (last (candidates t i j)))"
  shows "single_pass t True = store t i j (last (candidates t i j))"
proof -
  let ?v = "last (candidates t i j)"
  let ?T = "store t i j ?v"
  have "?v \<in> set (candidates t i j)" using cand by (rule last_in_set)
  then have v: "?v \<noteq> 0" using candidates_range [of ?v t i j] by auto
  have pre': "\<And>a b. (a, b) \<in> set (pre @ [(i, j)]) \<Longrightarrow> ?T a b \<noteq> 0"
    using pre blank v by (auto simp: store_def)
  have "sweep cells (t, True) = sweep post (sweep_cell i j (sweep pre (t, True)))"
    by (simp add: cs sweep_append sweep_simps)
  also have "sweep pre (t, True) = (t, True)" by (rule sweep_nonblank) (rule pre)
  also have "sweep_cell i j (t, True) = (?T, False)"
    using blank cand by (simp add: sweep_cell_def select_allowed_eq)
  finally have 1: "sweep cells (t, True) = sweep post (?T, False)" .
  have "sweep cells (?T, False) = sweep post (sweep (pre @ [(i, j)]) (?T, False))"
    by (simp add: cs sweep_append sweep_simps)
  also have "sweep (pre @ [(i, j)]) (?T, False) = (?T, False)"
    by (rule sweep_nonblank) (rule pre')
  finally have 2: "sweep cells (?T, False) = sweep post (?T, False)" .
  have "sweep cells (?T, False) = (?T, False)"
    by (rule sweep_stuck) (rule naked_single_freeD [OF stuck(1)])
  with 1 2 have "sweep cells (t, True) = (?T, False)" by simp
  moreover have "fold (\<lambda>num t. select_possible t num) [1..9] ?T = ?T"
    by (rule fold_fixed) (simp add: select_possible_stuck [OF stuck(2)])
  ultimately show ?thesis by (simp add: single_pass_eq)
qed

lemma single_pass_dead:
  assumes cs: "cells = pre @ (i, j) # post"
    and pre: "\<And>a b. (a, b) \<in> set pre \<Longrightarrow> t a b \<noteq> 0"
    and blank: "t i j = 0"
    and cand: "candidates t i j = []"
    and stuck: "naked_single_free t" "hidden_single_free t"
  shows "single_pass t True = t"
proof -
  have "sweep cells (t, True) = sweep post (sweep_cell i j (sweep pre (t, True)))"
    by (simp add: cs sweep_append sweep_simps)
  also have "sweep pre (t, True) = (t, True)" by (rule sweep_nonblank) (rule pre)
  also have "sweep_cell i j (t, True) = (t, False)"
    using blank cand by (simp add: sweep_cell_def select_allowed_eq)
  also have "sweep post (t, False) = (t, False)"
    by (rule sweep_stuck) (rule naked_single_freeD [OF stuck(1)], simp add: cs)
  finally have "sweep cells (t, True) = (t, False)" .
  moreover have "fold (\<lambda>num t. select_possible t num) [1..9] t = t"
    by (rule fold_fixed) (simp add: select_possible_stuck [OF stuck(2)])
  ultimately show ?thesis by (simp add: single_pass_eq)
qed

lemma solve_loop_done: "number_of_empty_cells t = 0 \<Longrightarrow> solve_loop t p a = (t, [])"
  by (subst solve_loop.simps) simp

lemma solve_loop_give_up:
  "number_of_empty_cells t = p \<Longrightarrow> solve_loop t p True = (t, [])"
  by (subst solve_loop.simps) simp

lemma solve_loop_pass:
  assumes "number_of_empty_cells t \<noteq> 0" "\<not> (number_of_empty_cells t = p \<and> a)"
  shows "solve_loop t p a =
     (fst (solve_loop (single_pass t (a \<or> number_of_empty_cells t = p)) (number_of_empty_cells t)
             (a \<or> number_of_empty_cells t = p)),
      (a \<or> number_of_empty_cells t = p)
        # snd (solve_loop (single_pass t (a \<or> number_of_empty_cells t = p)) (number_of_empty_cells t)
             (a \<or> number_of_empty_cells t = p)))"
  using assms by (subst solve_loop.simps) (auto simp: Let_def split: prod.splits)


section \<open>The solver on three concrete tables\<close>

lemma cells_head: "cells = [] @ (0, 0) # tl cells"
  by (simp add: cells_def upt_rec [of 0])

lemma empty_table_blanks: "number_of_empty_cells empty_table = 81"
  by (simp add: number_of_empty_cells_filter empty_table_def cells_def)

lemma empty_table_candidates: "candidates empty_table 0 0 = [1, 2, 3, 4, 5, 6, 7, 8, 9]"
  by code_simp

lemma empty_table_guess_stuck:
  "naked_single_free (store empty_table 0 0 9)" "hidden_single_free (store empty_table 0 0 9)"
  by code_simp+

lemma single_pass_empty_table: "single_pass empty_table True = store empty_table 0 0 9"
proof -
  have "single_pass empty_table True = store empty_table 0 0 (last (candidates empty_table 0 0))"
    by (rule single_pass_guess [OF cells_head])
      (simp_all add: empty_table_candidates empty_table_guess_stuck, simp add: empty_table_def)
  then show ?thesis by (simp add: empty_table_candidates)
qed

lemma store_blanks:
  "number_of_empty_cells (store empty_table 0 0 9) = 80"
  by code_simp

lemma dead_end_table_facts:
  "number_of_empty_cells dead_end_table = 72"
  "candidates dead_end_table 0 0 = []"
  "candidates dead_end_table 1 0 = [3, 4, 5, 6, 7, 8]"
  "naked_single_free dead_end_table"
  "hidden_single_free dead_end_table"
  by code_simp+

lemma single_pass_dead_end_table: "single_pass dead_end_table b = dead_end_table"
proof (cases b)
  case True
  have "single_pass dead_end_table True = dead_end_table"
    by (rule single_pass_dead [OF cells_head])
      (simp_all add: dead_end_table_facts, simp add: dead_end_table_def)
  with True show ?thesis by simp
next
  case False
  then show ?thesis by (simp add: single_pass_stuck dead_end_table_facts)
qed

lemma solve_loop_dead_end_table: "solve_loop dead_end_table 81 False = (dead_end_table, [False, True])"
proof -
  have 3: "solve_loop dead_end_table 72 True = (dead_end_table, [])"
    by (rule solve_loop_give_up) (rule dead_end_table_facts)
  have 2: "solve_loop dead_end_table 72 False = (dead_end_table, [True])"
    by (subst solve_loop_pass) (simp_all add: dead_end_table_facts single_pass_dead_end_table 3)
  show ?thesis
    by (subst solve_loop_pass) (simp_all add: dead_end_table_facts single_pass_dead_end_table 2)
qed

lemma one_given_table_facts:
  "number_of_empty_cells one_given_table = 80"
  "candidates one_given_table 0 0 = [1, 2, 3, 4, 5, 6, 7, 8, 9]"
  "naked_single_free one_given_table"
  "hidden_single_free one_given_table"
  "number_of_empty_cells (store one_given_table 0 0 9) = 79"
  "naked_single_free (store one_given_table 0 0 9)"
  "hidden_single_free (store one_given_table 0 0 9)"
  by code_simp+

lemma single_pass_one_given_table:
  "single_pass one_given_table False = one_given_table"
  "single_pass one_given_table True = store one_given_table 0 0 9"
proof -
  show "single_pass one_given_table False = one_given_table"
    by (simp add: single_pass_stuck one_given_table_facts)
  have "single_pass one_given_table True =
      store one_given_table 0 0 (last (candidates one_given_table 0 0))"
    by (rule single_pass_guess [OF cells_head])
      (simp_all add: one_given_table_facts, simp add: one_given_table_def store_def empty_table_def)
  then show "single_pass one_given_table True = store one_given_table 0 0 9"
    by (simp add: one_given_table_facts)
qed

lemma solve_passes_one_given_table:
  "\<exists>rest. solve_passes one_given_table = False # True # True # rest"
proof -
  let ?T = "store one_given_table 0 0 9"
  have 3: "snd (solve_loop ?T 80 True) = True # snd (solve_loop (single_pass ?T True) 79 True)"
    by (subst solve_loop_pass) (simp_all add: one_given_table_facts)
  have 2: "snd (solve_loop one_given_table 80 False) = True # snd (solve_loop ?T 80 True)"
    by (subst solve_loop_pass) (simp_all add: one_given_table_facts single_pass_one_given_table)
  have 1: "snd (solve_loop one_given_table 81 False) = False # snd (solve_loop one_given_table 80 False)"
    by (subst solve_loop_pass) (simp_all add: one_given_table_facts single_pass_one_given_table)
  show ?thesis unfolding solve_passes_def 1 2 3 by blast
qed


section \<open>Giving up\<close>

lemma same_block_less: "i div 3 = row div 3 \<Longrightarrow> row < 9 \<Longrightarrow> i < (9::nat)"
  by arith

lemma candidates_legal:
  assumes "row < 9" "col < 9"
  shows "(d \<in> set (candidates t row col)) = legal t row col d"
proof -
  have "allowed_at_position t row col d =
      ((\<forall>j<9. t row j \<noteq> d) \<and> (\<forall>i<9. t i col \<noteq> d)
       \<and> (\<forall>i j. i div 3 = row div 3 \<and> j div 3 = col div 3 \<longrightarrow> t i j \<noteq> d))"
    (is "?L = (?R \<and> ?C \<and> ?B)")
  proof
    assume l: ?L
    then have r: ?R and c: ?C
      and b: "\<forall>i j. i div 3 = row div 3 \<and> j div 3 = col div 3 \<and> i \<noteq> row \<and> j \<noteq> col \<longrightarrow> t i j \<noteq> d"
      unfolding allowed_at_position_def allowed_in_row_def allowed_in_col_def allowed_in_block_iff
        list_ex_iff by auto
    have ?B
    proof (intro allI impI)
      fix i j assume ij: "i div 3 = row div 3 \<and> j div 3 = col div 3"
      then have lt: "i < 9" "j < 9" using assms same_block_less by blast+
      show "t i j \<noteq> d"
      proof (cases "i = row")
        case True
        with r lt show ?thesis by simp
      next
        case False
        show ?thesis
        proof (cases "j = col")
          case True
          with c lt show ?thesis by simp
        next
          case False
          with \<open>i \<noteq> row\<close> ij b show ?thesis by blast
        qed
      qed
    qed
    with r c show "?R \<and> ?C \<and> ?B" by blast
  next
    assume "?R \<and> ?C \<and> ?B"
    then show ?L
      unfolding allowed_at_position_def allowed_in_row_def allowed_in_col_def allowed_in_block_iff
        list_ex_iff by auto
  qed
  then show ?thesis by (auto simp: candidates_def legal_def)
qed

lemma candidates_card:
  assumes "row < 9" "col < 9"
  shows "length (candidates t row col) = card {d. legal t row col d}"
proof -
  have "distinct (candidates t row col)" by (simp add: candidates_def)
  then have "length (candidates t row col) = card (set (candidates t row col))"
    by (simp add: distinct_card)
  also have "set (candidates t row col) = {d. legal t row col d}"
    using candidates_legal [OF assms] by blast
  finally show ?thesis .
qed

lemma single_pass_fixed_sweep:
  assumes "single_pass t b = t"
  shows "fst (sweep cells (t, b)) = t"
proof -
  let ?s = "fst (sweep cells (t, b))"
  have 1: "fills t ?s" by (rule sweep_fills) (auto simp: cells_def)
  have "fills ?s (single_pass t b)"
    unfolding single_pass_eq by (rule fold_fills) (simp add: select_possible_fills)
  with assms have 2: "fills ?s t" by simp
  from 1 2 show ?thesis by (rule fills_antisym)
qed

lemma sweep_fixed:
  assumes "fst (sweep cs (t, b)) = t" "\<And>i j. (i, j) \<in> set cs \<Longrightarrow> i < 9 \<and> j < 9"
  shows "(\<forall>(i, j)\<in>set cs. t i j = 0 \<longrightarrow> length (candidates t i j) \<noteq> 1)
     \<and> (b \<longrightarrow> (\<forall>i j. find (\<lambda>(i, j). t i j = 0) cs = Some (i, j) \<longrightarrow> candidates t i j = []))"
  using assms
proof (induction cs arbitrary: b)
  case Nil
  then show ?case by simp
next
  case (Cons c cs)
  obtain i j where c: "c = (i, j)" by (cases c)
  have r: "i < 9" "j < 9" using Cons.prems(2) [of i j] c by simp_all
  obtain t1 b1 where s: "sweep_cell i j (t, b) = (t1, b1)" by (cases "sweep_cell i j (t, b)")
  have f1: "fills t t1"
    using s r by (auto simp: sweep_cell_def fills_refl select_allowed_fills split: if_splits)
  have "fills t1 (fst (sweep cs (t1, b1)))"
    by (rule sweep_fills) (rule Cons.prems(2), simp)
  moreover have fx: "fst (sweep cs (t1, b1)) = t"
    using Cons.prems(1) by (simp add: c sweep_simps s)
  ultimately have "fills t1 t" by simp
  with f1 have t1: "t1 = t" by (rule fills_antisym)
  have ih: "(\<forall>(i, j)\<in>set cs. t i j = 0 \<longrightarrow> length (candidates t i j) \<noteq> 1)
     \<and> (b1 \<longrightarrow> (\<forall>i j. find (\<lambda>(i, j). t i j = 0) cs = Some (i, j) \<longrightarrow> candidates t i j = []))"
    by (rule Cons.IH) (use fx t1 in simp, rule Cons.prems(2), simp)
  show ?case
  proof (cases "t i j = 0")
    case False
    then have "b1 = b" using s by (simp add: sweep_cell_def)
    with ih False show ?thesis by (simp add: c)
  next
    case True
    then have sa: "select_allowed t i j b = t" using s t1 by (simp add: sweep_cell_def)
    have no: "\<not> (length (candidates t i j) = 1 \<or> (candidates t i j \<noteq> [] \<and> b))"
    proof
      assume a: "length (candidates t i j) = 1 \<or> (candidates t i j \<noteq> [] \<and> b)"
      then have ne: "candidates t i j \<noteq> []" by auto
      from a sa have "store t i j (last (candidates t i j)) = t" by (simp add: select_allowed_eq)
      then have "store t i j (last (candidates t i j)) i j = t i j" by simp
      then have "last (candidates t i j) = 0" using True by (simp add: store_def)
      moreover have "last (candidates t i j) \<in> set (candidates t i j)" using ne by (rule last_in_set)
      ultimately show False using candidates_range [of 0 t i j] by simp
    qed
    with ih True show ?thesis by (auto simp: c)
  qed
qed

lemma solve_loop_gave_up:
  assumes "a \<longrightarrow> number_of_empty_cells t = p \<longrightarrow> single_pass t True = t"
  shows "number_of_empty_cells (fst (solve_loop t p a)) \<noteq> 0 \<longrightarrow>
     single_pass (fst (solve_loop t p a)) True = fst (solve_loop t p a)"
  using assms
proof (induction t p a rule: solve_loop.induct)
  case (1 t p a)
  let ?z = "number_of_empty_cells t"
  show ?case
  proof (cases "?z = 0")
    case True
    then show ?thesis by (simp add: solve_loop_done)
  next
    case nz: False
    show ?thesis
    proof (cases "?z = p \<and> a")
      case True
      then have "solve_loop t p a = (t, [])" by (simp add: solve_loop_give_up)
      with True "1.prems" show ?thesis by simp
    next
      case False
      let ?a = "a \<or> ?z = p"
      let ?t = "single_pass t ?a"
      have inv: "?a \<longrightarrow> number_of_empty_cells ?t = ?z \<longrightarrow> single_pass ?t True = ?t"
      proof (intro impI)
        assume a: ?a and z: "number_of_empty_cells ?t = ?z"
        have "?t = t" using single_pass_fills z by (rule fills_zeros_eq)
        with a show "single_pass ?t True = ?t" by simp
      qed
      have "number_of_empty_cells (fst (solve_loop ?t ?z ?a)) \<noteq> 0 \<longrightarrow>
          single_pass (fst (solve_loop ?t ?z ?a)) True = fst (solve_loop ?t ?z ?a)"
        using nz False inv by (intro "1.IH") auto
      moreover have "fst (solve_loop t p a) = fst (solve_loop ?t ?z ?a)"
        using nz False by (simp add: solve_loop_pass)
      ultimately show ?thesis by simp
    qed
  qed
qed

lemma first_blank_exists:
  assumes "number_of_empty_cells t \<noteq> 0"
  shows "\<exists>i j. find (\<lambda>(i, j). t i j = 0) cells = Some (i, j) \<and> i < 9 \<and> j < 9"
proof -
  from assms have "filter (\<lambda>(i, j). t i j = 0) cells \<noteq> []"
    by (simp add: number_of_empty_cells_filter)
  then have "find (\<lambda>(i, j). t i j = 0) cells \<noteq> None"
    by (auto simp: find_None_iff filter_empty_conv)
  then obtain x where x: "find (\<lambda>(i, j). t i j = 0) cells = Some x" by blast
  then have m: "x \<in> set cells" by (metis find_Some_iff nth_mem)
  obtain i j where xij: "x = (i, j)" by (cases x)
  from m xij have "i < 9 \<and> j < 9" by (simp add: cells_def)
  with x xij show ?thesis by blast
qed

text \<open>
  Claim C4 (as amended). \<^verbatim>\<open>solve\<close> gives up when it returns with blank cells left.
  Then a guess-authorized pass over the final table changes nothing, the first blank
  cell in row-major order has no legal candidate, and no blank cell has exactly one
  legal candidate. Blank cells after the first may still have two or more candidates.
\<close>

theorem give_up_first_blank_dead:
  assumes "number_of_empty_cells (solve t) \<noteq> 0"
  shows "single_pass (solve t) True = solve t
     \<and> (\<exists>i j. find (\<lambda>(i, j). solve t i j = 0) cells = Some (i, j) \<and> (\<forall>d. \<not> legal (solve t) i j d))
     \<and> (\<forall>(a, b)\<in>set cells. solve t a b = 0 \<longrightarrow> card {d. legal (solve t) a b d} \<noteq> 1)"
proof -
  let ?u = "solve t"
  have fx: "single_pass ?u True = ?u"
    using solve_loop_gave_up [of False t 81] assms unfolding solve_def by simp
  then have "fst (sweep cells (?u, True)) = ?u" by (rule single_pass_fixed_sweep)
  then have sw: "(\<forall>(i, j)\<in>set cells. ?u i j = 0 \<longrightarrow> length (candidates ?u i j) \<noteq> 1)
     \<and> (\<forall>i j. find (\<lambda>(i, j). ?u i j = 0) cells = Some (i, j) \<longrightarrow> candidates ?u i j = [])"
    using sweep_fixed [of cells ?u True] by (auto simp: cells_def)
  obtain i j where ij: "find (\<lambda>(i, j). ?u i j = 0) cells = Some (i, j)" "i < 9" "j < 9"
    using first_blank_exists [OF assms] by blast
  with sw have "candidates ?u i j = []" by blast
  then have "\<forall>d. \<not> legal ?u i j d"
    using candidates_legal [OF ij(2,3), of _ ?u] by simp
  with ij(1) have 1: "\<exists>i j. find (\<lambda>(i, j). ?u i j = 0) cells = Some (i, j) \<and> (\<forall>d. \<not> legal ?u i j d)"
    by blast
  have 2: "\<forall>(a, b)\<in>set cells. ?u a b = 0 \<longrightarrow> card {d. legal ?u a b d} \<noteq> 1"
  proof (intro ballI, clarify)
    fix a b assume m: "(a, b) \<in> set cells" and z: "?u a b = 0" and c: "card {d. legal ?u a b d} = 1"
    from m have r: "a < 9" "b < 9" by (auto simp: cells_def)
    from sw m z have "length (candidates ?u a b) \<noteq> 1" by blast
    with c show False by (simp add: candidates_card [OF r])
  qed
  from fx 1 2 show ?thesis by blast
qed

lemma solve_dead_end_table: "solve dead_end_table = dead_end_table"
  by (simp add: solve_def solve_loop_dead_end_table)

theorem give_up_first_blank_dead_witness:
  "number_of_empty_cells (solve dead_end_table) \<noteq> 0
   \<and> single_pass (solve dead_end_table) True = solve dead_end_table
   \<and> (\<exists>i j. find (\<lambda>(i, j). solve dead_end_table i j = 0) cells = Some (i, j)
         \<and> (\<forall>d. \<not> legal (solve dead_end_table) i j d))"
proof -
  have h: "number_of_empty_cells (solve dead_end_table) \<noteq> 0"
    by (simp add: solve_dead_end_table dead_end_table_facts)
  from give_up_first_blank_dead [OF h] h show ?thesis by blast
qed

text \<open>
  Claim C4 as stated fails: on \<open>dead_end_table\<close> the solver gives up while the blank
  cell in row 1, column 0 still has legal candidates (3 and 4 among them). Only the first
  blank cell, which receives the single guess of the pass, is without candidates.
\<close>

theorem give_up_with_live_blank_counterexample:
  "number_of_empty_cells (solve dead_end_table) \<noteq> 0
   \<and> solve dead_end_table 1 0 = 0
   \<and> legal (solve dead_end_table) 1 0 3 \<and> legal (solve dead_end_table) 1 0 4"
proof -
  have "(3::int) \<in> set (candidates dead_end_table 1 0)" "(4::int) \<in> set (candidates dead_end_table 1 0)"
    unfolding dead_end_table_facts by simp_all
  then have "legal dead_end_table 1 0 3" "legal dead_end_table 1 0 4"
    by (simp_all add: candidates_legal)
  moreover have "dead_end_table 1 0 = 0" by (simp add: dead_end_table_def)
  ultimately show ?thesis by (simp add: solve_dead_end_table dead_end_table_facts)
qed


section \<open>The first pass\<close>

lemma first_pass_flag:
  assumes "number_of_empty_cells t \<noteq> 0"
  shows "solve_passes t \<noteq> [] \<and> hd (solve_passes t) = (number_of_empty_cells t = 81)"
  unfolding solve_passes_def using assms by (simp add: solve_loop_pass)

text \<open>
  Claim C3 (as amended). On a table with at least one blank the first call of
  \<^verbatim>\<open>single_pass\<close> has guessing disabled unless all 81 cells are blank. On the empty
  table \<^verbatim>\<open>zeros\<close> equals the initial \<^verbatim>\<open>prev_zeros = 81\<close>, so the first pass is
  already guess-authorized; it places exactly one digit, a 9 in the top left cell, and
  leaves 80 blanks.
\<close>

theorem first_pass_guesses_only_on_empty_table:
  "(number_of_empty_cells t \<noteq> 0 \<longrightarrow>
      solve_passes t \<noteq> [] \<and> hd (solve_passes t) = (number_of_empty_cells t = 81))
   \<and> number_of_empty_cells empty_table = 81
   \<and> single_pass empty_table True = store empty_table 0 0 9
   \<and> number_of_empty_cells (store empty_table 0 0 9) = 80"
  using first_pass_flag [of t] empty_table_blanks single_pass_empty_table store_blanks by blast

theorem first_pass_guesses_only_on_empty_table_witness:
  "number_of_empty_cells one_given_table \<noteq> 0 \<and> solve_passes one_given_table \<noteq> []
   \<and> hd (solve_passes one_given_table) = False
   \<and> number_of_empty_cells empty_table \<noteq> 0 \<and> solve_passes empty_table \<noteq> []
   \<and> hd (solve_passes empty_table) = True"
proof -
  have a: "number_of_empty_cells one_given_table \<noteq> 0" by (simp add: one_given_table_facts)
  have b: "number_of_empty_cells empty_table \<noteq> 0" by (simp add: empty_table_blanks)
  from first_pass_guesses_only_on_empty_table [of one_given_table] a
  have "solve_passes one_given_table \<noteq> [] \<and> hd (solve_passes one_given_table) = False"
    by (simp add: one_given_table_facts)
  moreover from first_pass_guesses_only_on_empty_table [of empty_table] b
  have "solve_passes empty_table \<noteq> [] \<and> hd (solve_passes empty_table) = True"
    by (simp add: empty_table_blanks)
  ultimately show ?thesis using a b by blast
qed

text \<open>
  Claim C3 as stated fails on the empty table: its first pass runs with
  \<^verbatim>\<open>assign_random\<close> true and writes 9 into the blank top left cell.
\<close>

theorem first_pass_on_empty_table_counterexample:
  "solve_passes empty_table \<noteq> [] \<and> hd (solve_passes empty_table) = True
   \<and> single_pass empty_table (hd (solve_passes empty_table)) 0 0 = 9
   \<and> empty_table 0 0 = 0"
proof -
  have 1: "solve_passes empty_table \<noteq> [] \<and> hd (solve_passes empty_table) = True"
    using first_pass_flag [of empty_table] by (simp add: empty_table_blanks)
  have 2: "single_pass empty_table True 0 0 = 9" by (simp add: single_pass_empty_table store_def)
  have 3: "empty_table 0 0 = 0" by (simp add: empty_table_def)
  from 1 2 3 show ?thesis by simp
qed


section \<open>Guessing\<close>

lemma sorted_le_last: "sorted xs \<Longrightarrow> x \<in> set xs \<Longrightarrow> x \<le> last xs"
  by (induction xs) auto

lemma last_candidates_Max:
  assumes "candidates t row col \<noteq> []"
  shows "last (candidates t row col) = Max (set (candidates t row col))"
proof -
  have s: "sorted (candidates t row col)" by (simp add: candidates_def sorted_filter [where f = id, simplified])
  show ?thesis
  proof (rule Max_eqI [symmetric])
    show "finite (set (candidates t row col))" by simp
    show "\<And>y. y \<in> set (candidates t row col) \<Longrightarrow> y \<le> last (candidates t row col)"
      using s by (rule sorted_le_last)
    show "last (candidates t row col) \<in> set (candidates t row col)"
      using assms by (rule last_in_set)
  qed
qed

lemma first_blank_split:
  assumes "find (\<lambda>(i, j). t i j = 0) cells = Some (row, col)"
  shows "\<exists>pre post. cells = pre @ (row, col) # post \<and> (\<forall>(a, b)\<in>set pre. t a b \<noteq> 0)
           \<and> t row col = 0 \<and> row < 9 \<and> col < 9"
proof -
  from assms obtain k where k: "k < length cells" "t row col = 0" "(row, col) = cells ! k"
    "\<forall>m<k. \<not> (case cells ! m of (i, j) \<Rightarrow> t i j = 0)"
    unfolding find_Some_iff by auto
  let ?pre = "take k cells" and ?post = "drop (Suc k) cells"
  have 1: "cells = ?pre @ (row, col) # ?post"
    using id_take_nth_drop [OF k(1)] k(3) by simp
  have 2: "\<forall>(a, b)\<in>set ?pre. t a b \<noteq> 0"
  proof (intro ballI, clarify)
    fix a b assume "(a, b) \<in> set (take k cells)" "t a b = 0"
    then obtain m where "m < k" "cells ! m = (a, b)"
      using k(1) by (auto simp: in_set_conv_nth)
    with k(4) \<open>t a b = 0\<close> show False by auto
  qed
  have "(row, col) \<in> set cells" using k(1,3) by (metis nth_mem)
  then have 3: "row < 9 \<and> col < 9" by (simp add: cells_def)
  from 1 2 3 k(2) show ?thesis by blast
qed

lemma single_pass_guess_first:
  assumes "find (\<lambda>(i, j). t i j = 0) cells = Some (row, col)"
  shows "single_pass t True = single_pass (select_allowed t row col True) False"
proof -
  let ?T = "select_allowed t row col True"
  obtain pre post where cs: "cells = pre @ (row, col) # post"
    and pre: "\<forall>(a, b)\<in>set pre. t a b \<noteq> 0" and z: "t row col = 0"
    using first_blank_split [OF assms] by blast
  have T: "?T = (if candidates t row col = [] then t
                else store t row col (last (candidates t row col)))"
    by (auto simp: select_allowed_eq)
  have pre': "\<And>a b. (a, b) \<in> set pre \<Longrightarrow> ?T a b \<noteq> 0"
    using pre z unfolding T by (auto simp: store_def)
  have "sweep cells (t, True) = sweep post (sweep_cell row col (sweep pre (t, True)))"
    by (simp add: cs sweep_append sweep_simps)
  also have "sweep pre (t, True) = (t, True)"
    by (rule sweep_nonblank) (use pre in auto)
  also have "sweep_cell row col (t, True) = (?T, False)"
    using z by (simp add: sweep_cell_def)
  finally have 1: "sweep cells (t, True) = sweep post (?T, False)" .
  have "sweep cells (?T, False) = sweep post (sweep_cell row col (sweep pre (?T, False)))"
    by (simp add: cs sweep_append sweep_simps)
  also have "sweep pre (?T, False) = (?T, False)"
    by (rule sweep_nonblank) (rule pre')
  also have "sweep_cell row col (?T, False) = (?T, False)"
  proof (cases "candidates t row col = []")
    case True
    then show ?thesis using z by (simp add: sweep_cell_def select_allowed_eq)
  next
    case False
    then have "last (candidates t row col) \<in> set (candidates t row col)" by (rule last_in_set)
    then have "last (candidates t row col) \<noteq> 0" using candidates_range [of _ t row col] by force
    then have "?T row col \<noteq> 0" using False unfolding T by (simp add: store_def)
    then show ?thesis by (simp add: sweep_cell_def)
  qed
  finally have 2: "sweep cells (?T, False) = sweep post (?T, False)" .
  from 1 2 show ?thesis by (simp add: single_pass_eq)
qed

lemma single_pass_no_blank:
  assumes "find (\<lambda>(i, j). t i j = 0) cells = None"
  shows "single_pass t True = single_pass t False"
proof -
  from assms have "\<And>a b. (a, b) \<in> set cells \<Longrightarrow> t a b \<noteq> 0"
    unfolding find_None_iff by auto
  then have "sweep cells (t, True) = (t, True)" "sweep cells (t, False) = (t, False)"
    by (simp_all add: sweep_nonblank)
  then show ?thesis by (simp add: single_pass_eq)
qed

lemma first_blank_empty_table: "find (\<lambda>(i, j). empty_table i j = 0) cells = Some (0, 0)"
  by (subst cells_head) (simp add: empty_table_def)

text \<open>
  Claim C2 (as amended). In a guess-authorized pass the guess goes to the first blank cell
  in row-major order, and only there: \<^verbatim>\<open>single_pass\<close> with \<^verbatim>\<open>assign_random\<close> true does
  what a pass without authorization does on the table in which that cell, if it has an
  allowed digit, holds its largest allowed digit; and that digit is what the cell holds
  after the pass. The digit is the last one the loop of \<^verbatim>\<open>select_allowed\<close> from 1 to 9
  finds, computed from the table alone; there is no random source and no selection
  capability. The authorization is cleared at the first blank cell whether or not a digit
  was stored, and without authorization a cell with several allowed digits is left blank.
  A pass over a table without blanks ignores the authorization.
\<close>

theorem guess_is_largest_allowed_digit:
  "(candidates t row col \<noteq> [] \<longrightarrow>
      select_allowed t row col True = store t row col (Max (set (candidates t row col))))
   \<and> (length (candidates t row col) \<noteq> 1 \<longrightarrow> select_allowed t row col False = t)
   \<and> (t row col = 0 \<longrightarrow> sweep_cell row col (t, b) = (select_allowed t row col b, False))
   \<and> (t row col \<noteq> 0 \<longrightarrow> sweep_cell row col (t, b) = (t, b))
   \<and> (find (\<lambda>(i, j). t i j = 0) cells = Some (row, col) \<longrightarrow>
        single_pass t True =
          single_pass (if candidates t row col = [] then t
                       else store t row col (Max (set (candidates t row col)))) False)
   \<and> (find (\<lambda>(i, j). t i j = 0) cells = Some (row, col) \<and> candidates t row col \<noteq> [] \<longrightarrow>
        single_pass t True row col = Max (set (candidates t row col)))
   \<and> (find (\<lambda>(i, j). t i j = 0) cells = None \<longrightarrow> single_pass t True = single_pass t False)"
proof -
  let ?m = "Max (set (candidates t row col))"
  have sa: "select_allowed t row col True =
      (if candidates t row col = [] then t else store t row col ?m)"
    by (auto simp: select_allowed_eq last_candidates_Max)
  have 5: "single_pass t True =
          single_pass (if candidates t row col = [] then t else store t row col ?m) False"
    if "find (\<lambda>(i, j). t i j = 0) cells = Some (row, col)"
    using single_pass_guess_first [OF that] by (simp only: sa)
  have 6: "single_pass t True row col = ?m"
    if f: "find (\<lambda>(i, j). t i j = 0) cells = Some (row, col)" and c: "candidates t row col \<noteq> []"
  proof -
    have "?m \<in> set (candidates t row col)" using c by (intro Max_in) simp_all
    then have "?m \<noteq> 0" using candidates_range [of ?m t row col] by auto
    then have nz: "store t row col ?m row col \<noteq> 0" by (simp add: store_def)
    have "fills (store t row col ?m) (single_pass (store t row col ?m) False)"
      by (rule single_pass_fills)
    with nz have "single_pass (store t row col ?m) False row col = store t row col ?m row col"
      unfolding fills_def by metis
    then show ?thesis using 5 [OF f] c by (simp add: store_def)
  qed
  show ?thesis
    using 5 6 single_pass_no_blank [of t]
    by (simp add: select_allowed_eq last_candidates_Max sweep_cell_def)
qed

theorem guess_is_largest_allowed_digit_witness:
  "candidates empty_table 0 0 \<noteq> [] \<and> empty_table 0 0 = 0
   \<and> Max (set (candidates empty_table 0 0)) = 9
   \<and> sweep_cell 0 0 (empty_table, True) = (store empty_table 0 0 9, False)
   \<and> select_allowed empty_table 0 0 False = empty_table
   \<and> find (\<lambda>(i, j). empty_table i j = 0) cells = Some (0, 0)
   \<and> single_pass empty_table True 0 0 = 9
   \<and> single_pass empty_table True = single_pass (store empty_table 0 0 9) False
   \<and> find (\<lambda>(i, j). solved_table i j = 0) cells = None
   \<and> single_pass solved_table True = single_pass solved_table False"
proof -
  have c: "candidates empty_table 0 0 \<noteq> []" "length (candidates empty_table 0 0) \<noteq> 1"
    unfolding empty_table_candidates by simp_all
  have z: "empty_table 0 0 = 0" by (simp add: empty_table_def)
  have m: "Max (set (candidates empty_table 0 0)) = 9"
    unfolding empty_table_candidates by simp
  note f = first_blank_empty_table
  have n: "find (\<lambda>(i, j). solved_table i j = 0) cells = None"
    using solved_table_no_blank
    by (auto simp: number_of_empty_cells_filter find_None_iff filter_empty_conv)
  note g = guess_is_largest_allowed_digit [of empty_table 0 0 True]
  from g c have 1: "select_allowed empty_table 0 0 True = store empty_table 0 0 (Max (set (candidates empty_table 0 0)))"
    by blast
  from g z have 2: "sweep_cell 0 0 (empty_table, True) = (select_allowed empty_table 0 0 True, False)"
    by blast
  from g c have 3: "select_allowed empty_table 0 0 False = empty_table"
    by blast
  from g f c have 4: "single_pass empty_table True 0 0 = Max (set (candidates empty_table 0 0))"
    by blast
  from g f have "single_pass empty_table True =
      single_pass (if candidates empty_table 0 0 = [] then empty_table
                   else store empty_table 0 0 (Max (set (candidates empty_table 0 0)))) False"
    by blast
  with c m have 5: "single_pass empty_table True = single_pass (store empty_table 0 0 9) False"
    by simp
  from guess_is_largest_allowed_digit [of solved_table 0 0 True] n
  have 6: "single_pass solved_table True = single_pass solved_table False" by blast
  from c z m 1 2 3 4 5 6 f n show ?thesis by simp
qed

text \<open>
  Claim C2 as stated fails: on the empty table the cell in the top left has the nine
  allowed digits 1 to 9. A selection capability that returns the first allowed digit
  would store 1 there; the code stores 9, whatever capability one has in mind.
\<close>

theorem guess_ignores_chooser_counterexample:
  "hd (candidates empty_table 0 0) \<in> set (candidates empty_table 0 0)
   \<and> spec_select_allowed hd empty_table 0 0 True 0 0 = 1
   \<and> spec_select_allowed last empty_table 0 0 True 0 0 = 9
   \<and> select_allowed empty_table 0 0 True 0 0 = 9"
proof -
  have "select_allowed empty_table 0 0 True = store empty_table 0 0 9"
    by (simp add: select_allowed_eq empty_table_candidates)
  then show ?thesis
    by (simp add: spec_select_allowed_def empty_table_candidates store_def)
qed

lemma solve_loop_flag_sticks: "a \<Longrightarrow> \<forall>b\<in>set (snd (solve_loop t p a)). b"
proof (induction t p a rule: solve_loop.induct)
  case (1 t p a)
  let ?z = "number_of_empty_cells t"
  show ?case
  proof (cases "?z = 0 \<or> (?z = p \<and> a)")
    case True
    then have "solve_loop t p a = (t, [])" using "1.prems"
      by (auto simp: solve_loop_done solve_loop_give_up)
    then show ?thesis by simp
  next
    case False
    let ?a = "a \<or> ?z = p"
    have "\<forall>b\<in>set (snd (solve_loop (single_pass t ?a) ?z ?a)). b"
      using False "1.prems" by (intro "1.IH") auto
    moreover have "snd (solve_loop t p a) = ?a # snd (solve_loop (single_pass t ?a) ?z ?a)"
      using False by (simp add: solve_loop_pass)
    ultimately show ?thesis using "1.prems" by simp
  qed
qed

text \<open>
  Claim C1, evaluated on \<open>one_given_table\<close>. The first pass runs without guessing and
  makes no progress; the second is guess-authorized and fills a cell (80 blanks become
  79); the third pass is again guess-authorized although the pass before it made
  progress. \<^verbatim>\<open>assign_random\<close> is set at the first stall and never cleared
  (\<open>solve_loop_flag_sticks\<close>).
\<close>

theorem guess_flag_never_cleared:
  "take 3 (solve_passes one_given_table) = [False, True, True]
   \<and> number_of_empty_cells (single_pass one_given_table False) = number_of_empty_cells one_given_table
   \<and> number_of_empty_cells (single_pass one_given_table True) < number_of_empty_cells one_given_table"
proof -
  obtain rest where "solve_passes one_given_table = False # True # True # rest"
    using solve_passes_one_given_table by blast
  then show ?thesis
    by (simp add: single_pass_one_given_table one_given_table_facts)
qed


section \<open>Determinism\<close>

lemma same_gridD: "same_grid t t' \<Longrightarrow> i < 9 \<Longrightarrow> j < 9 \<Longrightarrow> t i j = t' i j"
  by (simp add: same_grid_def)

lemma same_grid_store: "same_grid t t' \<Longrightarrow> same_grid (store t i j v) (store t' i j v)"
  by (simp add: same_grid_def store_def)

lemma same_grid_row:
  "same_grid t t' \<Longrightarrow> row < 9 \<Longrightarrow> allowed_in_row t row num = allowed_in_row t' row num"
  unfolding allowed_in_row_def list_ex_iff by (auto simp: same_grid_def)

lemma same_grid_col:
  "same_grid t t' \<Longrightarrow> col < 9 \<Longrightarrow> allowed_in_col t col num = allowed_in_col t' col num"
  unfolding allowed_in_col_def list_ex_iff by (auto simp: same_grid_def)

lemma same_grid_block:
  assumes "same_grid t t'" "row < 9" "col < 9"
  shows "allowed_in_block t row col num = allowed_in_block t' row col num"
proof -
  have "\<And>i j. i div 3 = row div 3 \<and> j div 3 = col div 3 \<Longrightarrow> t i j = t' i j"
    using assms same_block_less by (intro same_gridD) blast+
  then show ?thesis unfolding allowed_in_block_iff by metis
qed

lemma same_grid_position:
  "same_grid t t' \<Longrightarrow> row < 9 \<Longrightarrow> col < 9 \<Longrightarrow>
   allowed_at_position t row col num = allowed_at_position t' row col num"
  by (simp add: allowed_at_position_def same_grid_row same_grid_col same_grid_block)

lemma same_grid_candidates:
  "same_grid t t' \<Longrightarrow> row < 9 \<Longrightarrow> col < 9 \<Longrightarrow> candidates t row col = candidates t' row col"
  unfolding candidates_def by (rule filter_cong) (simp_all add: same_grid_position)

lemma same_grid_select_allowed:
  "same_grid t t' \<Longrightarrow> row < 9 \<Longrightarrow> col < 9 \<Longrightarrow>
   same_grid (select_allowed t row col b) (select_allowed t' row col b)"
  by (simp add: select_allowed_eq same_grid_candidates [of t t'] same_grid_store)

lemma same_grid_select_possible_in_row:
  assumes "same_grid t t'" "row < 9"
  shows "same_grid (select_possible_in_row t row num) (select_possible_in_row t' row num)"
proof -
  have "filter (\<lambda>j. t row j = 0 \<and> allowed_in_col t j num \<and> allowed_in_block t row j num) [0..<9] =
        filter (\<lambda>j. t' row j = 0 \<and> allowed_in_col t' j num \<and> allowed_in_block t' row j num) [0..<9]"
    using assms
    by (intro filter_cong) (simp_all add: same_gridD [of t t'] same_grid_col [of t t'] same_grid_block [of t t'])
  then show ?thesis
    using assms by (simp add: select_possible_in_row_eq Let_def same_grid_row [of t t'] same_grid_store)
qed

lemma same_grid_select_possible_in_col:
  assumes "same_grid t t'" "col < 9"
  shows "same_grid (select_possible_in_col t col num) (select_possible_in_col t' col num)"
proof -
  have "filter (\<lambda>i. t i col = 0 \<and> allowed_in_row t i num \<and> allowed_in_block t i col num) [0..<9] =
        filter (\<lambda>i. t' i col = 0 \<and> allowed_in_row t' i num \<and> allowed_in_block t' i col num) [0..<9]"
    using assms
    by (intro filter_cong) (simp_all add: same_gridD [of t t'] same_grid_row [of t t'] same_grid_block [of t t'])
  then show ?thesis
    using assms by (simp add: select_possible_in_col_eq Let_def same_grid_col [of t t'] same_grid_store)
qed

lemma same_grid_select_possible_in_block:
  assumes "same_grid t t'" "row + 3 \<le> 9" "col + 3 \<le> 9"
  shows "same_grid (select_possible_in_block t row col num) (select_possible_in_block t' row col num)"
proof -
  have "filter (\<lambda>(i, j). t i j = 0 \<and> allowed_at_position t i j num)
          (List.product [row..<row + 3] [col..<col + 3]) =
        filter (\<lambda>(i, j). t' i j = 0 \<and> allowed_at_position t' i j num)
          (List.product [row..<row + 3] [col..<col + 3])"
  proof (rule filter_cong [OF refl])
    fix x assume "x \<in> set (List.product [row..<row + 3] [col..<col + 3])"
    then obtain i j where "x = (i, j)" "i < 9" "j < 9" using assms(2,3) by auto
    then show "(case x of (i, j) \<Rightarrow> t i j = 0 \<and> allowed_at_position t i j num) =
               (case x of (i, j) \<Rightarrow> t' i j = 0 \<and> allowed_at_position t' i j num)"
      using assms(1) by (simp add: same_gridD [of t t'] same_grid_position [of t t'])
  qed
  moreover have "allowed_in_block t row col num = allowed_in_block t' row col num"
    using assms by (intro same_grid_block) simp_all
  ultimately show ?thesis
    using assms(1) by (simp add: select_possible_in_block_eq Let_def same_grid_store)
qed

lemma fold_same_grid:
  "(\<And>x t t'. x \<in> set xs \<Longrightarrow> same_grid t t' \<Longrightarrow> same_grid (f x t) (f x t')) \<Longrightarrow>
   same_grid t t' \<Longrightarrow> same_grid (fold f xs t) (fold f xs t')"
proof (induction xs arbitrary: t t')
  case Nil
  then show ?case by simp
next
  case (Cons x xs)
  have "same_grid (f x t) (f x t')" by (rule Cons.prems(1)) (simp_all add: Cons.prems(2))
  then have "same_grid (fold f xs (f x t)) (fold f xs (f x t'))"
    by (intro Cons.IH) (simp_all add: Cons.prems(1))
  then show ?case by simp
qed

lemma same_grid_select_possible:
  assumes "same_grid t t'"
  shows "same_grid (select_possible t num) (select_possible t' num)"
  unfolding select_possible_eq
  by (intro fold_same_grid assms)
    (auto intro: same_grid_select_possible_in_row same_grid_select_possible_in_col
       same_grid_select_possible_in_block)

lemma same_grid_sweep:
  "(\<And>i j. (i, j) \<in> set cs \<Longrightarrow> i < 9 \<and> j < 9) \<Longrightarrow> same_grid t t' \<Longrightarrow>
   same_grid (fst (sweep cs (t, b))) (fst (sweep cs (t', b)))"
proof (induction cs arbitrary: t t' b)
  case Nil
  then show ?case by (simp add: sweep_simps)
next
  case (Cons c cs)
  obtain i j where c: "c = (i, j)" by (cases c)
  have r: "i < 9" "j < 9" using Cons.prems(1) [of i j] c by simp_all
  have e: "t i j = t' i j" using Cons.prems(2) r by (rule same_gridD)
  have cr: "\<And>i j. (i, j) \<in> set cs \<Longrightarrow> i < 9 \<and> j < 9" by (rule Cons.prems(1)) simp
  show ?case
  proof (cases "t i j = 0")
    case True
    have sa: "same_grid (select_allowed t i j b) (select_allowed t' i j b)"
      using Cons.prems(2) r by (rule same_grid_select_allowed)
    have "same_grid (fst (sweep cs (select_allowed t i j b, False)))
                 (fst (sweep cs (select_allowed t' i j b, False)))"
    proof (rule Cons.IH)
      show "i < 9 \<and> j < 9" if "(i, j) \<in> set cs" for i j using that by (rule cr)
      show "same_grid (select_allowed t i j b) (select_allowed t' i j b)" by (rule sa)
    qed
    with True e show ?thesis by (simp add: c sweep_simps sweep_cell_def)
  next
    case False
    have "same_grid (fst (sweep cs (t, b))) (fst (sweep cs (t', b)))"
    proof (rule Cons.IH)
      show "i < 9 \<and> j < 9" if "(i, j) \<in> set cs" for i j using that by (rule cr)
      show "same_grid t t'" by (rule Cons.prems(2))
    qed
    with False e show ?thesis by (simp add: c sweep_simps sweep_cell_def)
  qed
qed

lemma same_grid_single_pass:
  assumes "same_grid t t'"
  shows "same_grid (single_pass t b) (single_pass t' b)"
proof -
  have "same_grid (fst (sweep cells (t, b))) (fst (sweep cells (t', b)))"
    by (rule same_grid_sweep) (auto simp: cells_def assms)
  then show ?thesis
    unfolding single_pass_eq by (intro fold_same_grid) (simp_all add: same_grid_select_possible)
qed

lemma same_grid_zeros:
  assumes "same_grid t t'"
  shows "number_of_empty_cells t = number_of_empty_cells t'"
proof -
  have "filter (\<lambda>(i, j). t i j = 0) cells = filter (\<lambda>(i, j). t' i j = 0) cells"
    using assms by (intro filter_cong) (auto simp: cells_def same_grid_def)
  then show ?thesis by (simp add: number_of_empty_cells_filter)
qed

lemma same_grid_solve_loop:
  "same_grid t t' \<Longrightarrow>
   same_grid (fst (solve_loop t p a)) (fst (solve_loop t' p a))
   \<and> snd (solve_loop t p a) = snd (solve_loop t' p a)"
proof (induction t p a arbitrary: t' rule: solve_loop.induct)
  case (1 t p a)
  let ?z = "number_of_empty_cells t"
  have z: "number_of_empty_cells t' = ?z" using "1.prems" by (simp add: same_grid_zeros)
  show ?case
  proof (cases "?z = 0 \<or> (?z = p \<and> a)")
    case True
    then have "solve_loop t p a = (t, [])" "solve_loop t' p a = (t', [])"
      using z by (auto simp: solve_loop_done solve_loop_give_up)
    with "1.prems" show ?thesis by simp
  next
    case False
    let ?a = "a \<or> ?z = p"
    have sp: "same_grid (single_pass t ?a) (single_pass t' ?a)"
      using "1.prems" by (rule same_grid_single_pass)
    have ih: "same_grid (fst (solve_loop (single_pass t ?a) ?z ?a)) (fst (solve_loop (single_pass t' ?a) ?z ?a))
       \<and> snd (solve_loop (single_pass t ?a) ?z ?a) = snd (solve_loop (single_pass t' ?a) ?z ?a)"
      using False sp by (intro "1.IH") auto
    have "solve_loop t p a =
        (fst (solve_loop (single_pass t ?a) ?z ?a), ?a # snd (solve_loop (single_pass t ?a) ?z ?a))"
      using False by (simp add: solve_loop_pass)
    moreover have "solve_loop t' p a =
        (fst (solve_loop (single_pass t' ?a) ?z ?a), ?a # snd (solve_loop (single_pass t' ?a) ?z ?a))"
      using False z by (simp add: solve_loop_pass)
    ultimately show ?thesis using ih by simp
  qed
qed

lemma for_loop_fun:
  assumes "\<And>x s s'. x \<in> set xs \<Longrightarrow> body x s s' = (s' = f x s)"
  shows "for_loop body xs s s' = (s' = fold f xs s)"
  using assms
proof (induction xs arbitrary: s)
  case Nil
  show ?case by (auto intro: for_loop_done elim: for_loop_NilE)
next
  case (Cons x xs)
  have b: "\<And>s s'. body x s s' = (s' = f x s)" by (rule Cons.prems) simp
  have ih: "\<And>s. for_loop body xs s s' = (s' = fold f xs s)"
    by (rule Cons.IH) (rule Cons.prems, simp)
  show ?case
  proof
    assume "for_loop body (x # xs) s s'"
    then obtain s1 where "body x s s1" "for_loop body xs s1 s'" by (rule for_loop_ConsE)
    then show "s' = fold f (x # xs) s" by (simp add: b ih)
  next
    assume "s' = fold f (x # xs) s"
    then have "s' = fold f xs (f x s)" by simp
    then have "for_loop body xs (f x s) s'" using ih by blast
    moreover have "body x s (f x s)" by (simp add: b)
    ultimately show "for_loop body (x # xs) s s'" by (rule for_loop_step [rotated])
  qed
qed

lemma select_allowed_from_eq:
  "select_allowed_from allowed0 t row col assign_random = select_allowed t row col assign_random"
  unfolding select_allowed_from_def select_allowed_eq fold_last_count
  by (auto simp: candidates_def Suc_le_eq)

lemma fold_last_count_map:
  "fold (\<lambda>x (a, c). if P x then (g x, c + 1) else (a, c)) xs (a0, c0::nat) =
     (if filter P xs = [] then a0 else g (last (filter P xs)), c0 + length (filter P xs))"
  by (induction xs arbitrary: a0 c0) simp_all

lemma select_possible_in_row_from_eq:
  "select_possible_in_row_from possible_col0 t row num = select_possible_in_row t row num"
  unfolding select_possible_in_row_from_def select_possible_in_row_eq fold_last_count_map Let_def
  by auto

lemma select_possible_in_col_from_eq:
  "select_possible_in_col_from possible_row0 t col num = select_possible_in_col t col num"
  unfolding select_possible_in_col_from_def select_possible_in_col_eq fold_last_count_map Let_def
  by auto

lemma block_scan_from_eq:
  "fold (\<lambda>i. fold (\<lambda>j (possible, count_possible).
            if t i j = 0 \<and> allowed_at_position t i j num
            then ((int i, int j), count_possible + 1) else (possible, count_possible)) ys) xs (p0, c0::nat) =
   (let hits = filter (\<lambda>(i, j). t i j = 0 \<and> allowed_at_position t i j num) (List.product xs ys)
    in (if hits = [] then p0 else (case last hits of (i, j) \<Rightarrow> (int i, int j)), c0 + length hits))"
proof -
  let ?P = "\<lambda>(i, j). t i j = 0 \<and> allowed_at_position t i j num"
  have e: "fold (\<lambda>i. fold (\<lambda>j (possible, count_possible).
            if t i j = 0 \<and> allowed_at_position t i j num
            then ((int i, int j), count_possible + 1) else (possible, count_possible)) ys) xs =
        fold (\<lambda>p (a, c). if ?P p then ((case p of (i, j) \<Rightarrow> (int i, int j)), c + 1) else (a, c))
          (List.product xs ys)"
    by (subst fold_product [symmetric]) (simp cong: if_cong)
  show ?thesis unfolding e by (simp add: fold_last_count_map Let_def)
qed

lemma select_possible_in_block_from_eq:
  "select_possible_in_block_from possible0 t row col num = select_possible_in_block t row col num"
  unfolding select_possible_in_block_from_def select_possible_in_block_eq block_scan_from_eq Let_def
  by (auto split: prod.splits)

lemma select_allowed_run_iff:
  "select_allowed_run t row col assign_random t' = (t' = select_allowed t row col assign_random)"
  by (simp add: select_allowed_run_def select_allowed_from_eq)

lemma select_possible_in_row_run_iff:
  "select_possible_in_row_run t row num t' = (t' = select_possible_in_row t row num)"
  by (simp add: select_possible_in_row_run_def select_possible_in_row_from_eq)

lemma select_possible_in_col_run_iff:
  "select_possible_in_col_run t col num t' = (t' = select_possible_in_col t col num)"
  by (simp add: select_possible_in_col_run_def select_possible_in_col_from_eq)

lemma select_possible_in_block_run_iff:
  "select_possible_in_block_run t row col num t' = (t' = select_possible_in_block t row col num)"
  by (simp add: select_possible_in_block_run_def select_possible_in_block_from_eq)

lemma select_possible_run_iff: "select_possible_run num t t' = (t' = select_possible t num)"
proof -
  have r: "\<And>t t1. for_loop (\<lambda>i t t'. select_possible_in_row_run t i num t') [0..<9] t t1 =
      (t1 = fold (\<lambda>i t. select_possible_in_row t i num) [0..<9] t)"
    by (rule for_loop_fun) (rule select_possible_in_row_run_iff)
  have c: "\<And>t t1. for_loop (\<lambda>j t t'. select_possible_in_col_run t j num t') [0..<9] t t1 =
      (t1 = fold (\<lambda>j t. select_possible_in_col t j num) [0..<9] t)"
    by (rule for_loop_fun) (rule select_possible_in_col_run_iff)
  have bi: "\<And>i t t1. for_loop (\<lambda>j t t'. select_possible_in_block_run t i j num t') [0, 3, 6] t t1 =
      (t1 = fold (\<lambda>j t. select_possible_in_block t i j num) [0, 3, 6] t)"
    by (rule for_loop_fun) (rule select_possible_in_block_run_iff)
  have b: "\<And>t t1. for_loop (\<lambda>i. for_loop (\<lambda>j t t'. select_possible_in_block_run t i j num t') [0, 3, 6])
        [0, 3, 6] t t1 =
      (t1 = fold (\<lambda>i. fold (\<lambda>j t. select_possible_in_block t i j num) [0, 3, 6]) [0, 3, 6] t)"
    by (rule for_loop_fun) (rule bi)
  show ?thesis
    unfolding select_possible_run_def r c b select_possible_def Let_def by blast
qed

lemma sweep_cell_run_iff: "sweep_cell_run i j s s' = (s' = sweep_cell i j s)"
  by (cases s) (auto simp: sweep_cell_run_def sweep_cell_def select_allowed_run_iff)

lemma single_pass_run_iff:
  "single_pass_run t assign_random t' = (t' = single_pass t assign_random)"
proof -
  have j: "\<And>i s s'. for_loop (\<lambda>j. sweep_cell_run i j) [0..<9] s s' =
      (s' = fold (\<lambda>j. sweep_cell i j) [0..<9] s)"
    by (rule for_loop_fun) (rule sweep_cell_run_iff)
  have i: "\<And>s s'. for_loop (\<lambda>i. for_loop (\<lambda>j. sweep_cell_run i j) [0..<9]) [0..<9] s s' =
      (s' = fold (\<lambda>i. fold (\<lambda>j. sweep_cell i j) [0..<9]) [0..<9] s)"
    by (rule for_loop_fun) (rule j)
  have n: "\<And>t t'. for_loop select_possible_run [1..9] t t' =
      (t' = fold (\<lambda>num t. select_possible t num) [1..9] t)"
    by (rule for_loop_fun) (rule select_possible_run_iff)
  show ?thesis
    unfolding single_pass_run_def i n single_pass_def Let_def by blast
qed

lemma solve_run_sound:
  "solve_run t prev_zeros assign_random t' \<Longrightarrow> t' = fst (solve_loop t prev_zeros assign_random)"
proof (induction rule: solve_run.induct)
  case (solve_run_done t prev_zeros assign_random)
  then show ?case by (simp add: solve_loop_done)
next
  case (solve_run_give_up t prev_zeros assign_random)
  then show ?case by (simp add: solve_loop_give_up)
next
  case (solve_run_pass t prev_zeros assign_random t1 t')
  let ?a = "assign_random \<or> number_of_empty_cells t = prev_zeros"
  have t1: "t1 = single_pass t ?a"
    using solve_run_pass.hyps(3) by (simp only: single_pass_run_iff)
  have "fst (solve_loop t prev_zeros assign_random) =
      fst (solve_loop (single_pass t ?a) (number_of_empty_cells t) ?a)"
    by (subst solve_loop_pass [OF solve_run_pass.hyps(1,2)]) (rule fst_conv)
  with solve_run_pass.IH t1 show ?case by (simp only:)
qed

lemma solve_run_complete:
  "solve_run t prev_zeros assign_random (fst (solve_loop t prev_zeros assign_random))"
proof (induction t prev_zeros assign_random rule: solve_loop.induct)
  case (1 t p a)
  let ?z = "number_of_empty_cells t"
  show ?case
  proof (cases "?z = 0")
    case True
    then show ?thesis by (simp add: solve_loop_done solve_run_done)
  next
    case nz: False
    show ?thesis
    proof (cases "?z = p \<and> a")
      case True
      then show ?thesis using nz by (simp add: solve_loop_give_up solve_run_give_up)
    next
      case False
      let ?a = "a \<or> ?z = p"
      have ih: "solve_run (single_pass t ?a) ?z ?a (fst (solve_loop (single_pass t ?a) ?z ?a))"
        using nz False by (intro "1.IH") auto
      have sp: "single_pass_run t ?a (single_pass t ?a)" by (simp add: single_pass_run_iff)
      have "solve_run t p a (fst (solve_loop (single_pass t ?a) ?z ?a))"
        by (rule solve_run_pass [OF nz False sp ih])
      then show ?thesis using nz False by (simp add: solve_loop_pass)
    qed
  qed
qed

text \<open>
  Claim C9. \<^verbatim>\<open>solve\<close> is deterministic, also when guesses fire. Any two runs on the
  same table end with the same table, whatever the uninitialised locals held; runs on
  tables that hold the same grid end with the same grid; a run always exists, and it
  ends with \<open>solve t\<close>. The guess of \<^verbatim>\<open>select_allowed\<close> is in every run the largest
  allowed digit of the cell, and no random source is consulted.
\<close>

theorem solve_deterministic:
  "(solve_run t 81 False t1 \<and> solve_run t 81 False t2 \<longrightarrow> t1 = t2)
   \<and> (same_grid t t' \<and> solve_run t 81 False t1 \<and> solve_run t' 81 False t2 \<longrightarrow> same_grid t1 t2)
   \<and> solve_run t 81 False (solve t)
   \<and> (select_allowed_run t row col True u \<longrightarrow>
        u = (if candidates t row col = [] then t
             else store t row col (Max (set (candidates t row col)))))"
proof (intro conjI impI)
  assume "solve_run t 81 False t1 \<and> solve_run t 81 False t2"
  then show "t1 = t2" using solve_run_sound by blast
next
  assume a: "same_grid t t' \<and> solve_run t 81 False t1 \<and> solve_run t' 81 False t2"
  then have "t1 = fst (solve_loop t 81 False)" "t2 = fst (solve_loop t' 81 False)"
    using solve_run_sound by blast+
  then show "same_grid t1 t2" using a same_grid_solve_loop [of t t' 81 False] by simp
next
  show "solve_run t 81 False (solve t)" unfolding solve_def by (rule solve_run_complete)
next
  assume "select_allowed_run t row col True u"
  then show "u = (if candidates t row col = [] then t
             else store t row col (Max (set (candidates t row col))))"
    by (auto simp: select_allowed_run_iff select_allowed_eq last_candidates_Max)
qed

theorem solve_deterministic_witness:
  "select_allowed_run empty_table 0 0 True (select_allowed_from 42 empty_table 0 0 True)
   \<and> select_allowed_from 42 empty_table 0 0 True = store empty_table 0 0 9
   \<and> solve_run dead_end_table 81 False (solve dead_end_table)
   \<and> solve_run dead_end_table 81 False dead_end_table
   \<and> same_grid dead_end_table dead_end_table
   \<and> same_grid (solve dead_end_table) dead_end_table"
proof -
  note d = solve_deterministic [of dead_end_table "solve dead_end_table" dead_end_table dead_end_table]
  have r1: "solve_run dead_end_table 81 False (solve dead_end_table)" using d by blast
  then have r2: "solve_run dead_end_table 81 False dead_end_table"
    by (simp add: solve_dead_end_table)
  have sg: "same_grid dead_end_table dead_end_table" by (simp add: same_grid_def)
  from d sg r1 r2 have s: "same_grid (solve dead_end_table) dead_end_table" by blast
  have g: "select_allowed_run empty_table 0 0 True (select_allowed_from 42 empty_table 0 0 True)"
    unfolding select_allowed_run_def by (rule exI [of _ 42]) (rule refl)
  from solve_deterministic [of empty_table _ _ _ 0 0 "select_allowed_from 42 empty_table 0 0 True"] g
  have "select_allowed_from 42 empty_table 0 0 True =
      (if candidates empty_table 0 0 = [] then empty_table
       else store empty_table 0 0 (Max (set (candidates empty_table 0 0))))"
    by blast
  then have v: "select_allowed_from 42 empty_table 0 0 True = store empty_table 0 0 9"
    unfolding empty_table_candidates by simp
  from g v r1 r2 sg s show ?thesis by (intro conjI)
qed

end
